theory Spec2Isabelle
  imports Main "HOL-Library.Word"
begin

section \<open>Data model of the L1 syncer\<close>

text \<open>
  Block numbers, batch numbers and sizes are Go \<open>uint64\<close>: 64-bit words whose
  arithmetic wraps around silently. Local counters of type \<open>int\<close> (\<open>loopCount\<close>,
  \<open>retry\<close>) start at 0 and stay below 11, so they are integers without a width.
\<close>

type_synonym u64 = "64 word"
type_synonym byte = "8 word"
type_synonym address = "160 word"

text \<open>
  \<open>common.Hash\<close> is 32 bytes; \<open>types.ZeroHash\<close> and the literal \<open>common.Hash{}\<close> are
  32 zero bytes.
\<close>

type_synonym Hash = "byte list"

definition ZeroHash :: Hash where
  "ZeroHash = replicate 32 0"

text \<open>
  An error returned by a chain endpoint is opaque to the syncer. The syncer's own errors
  are the two package-level sentinels, compared by identity in \<open>GetOldAccInputHash\<close>,
  and the error made by \<open>fmt.Errorf("too many retries")\<close>. The sentinels are unexported,
  so an endpoint cannot return them.
\<close>

datatype rpc_error = RpcError nat

datatype error =
    EndpointError rpc_error
  | errorShortResponseLT32
  | errorShortResponseLT96
  | errorTooManyRetries

datatype ethLog = Log (BlockNumber: u64)

text \<open>\<open>type fetchJob struct { From uint64; To uint64 }\<close>\<close>

record fetchJob =
  From :: u64
  To :: u64

text \<open>
  \<open>type jobResult struct { Size uint64; Error error; Logs []ethTypes.Log }\<close>;
  a nil error is \<open>None\<close>, a nil slice is the empty list.
\<close>

record jobResult =
  Size :: u64
  Error :: "error option"
  Logs :: "ethLog list"

text \<open>
  The fields of \<open>L1Syncer\<close> that the poll loop and the cycle read and write. The
  endpoint list with its rotation cursor (see \<open>getNextEtherman\<close> below), the filter
  addresses and topics and the channels are left out of the record.
\<close>

record L1Syncer =
  blockRange :: u64
  queryDelay :: u64
  latestL1Block :: u64
  isSyncStarted :: bool
  isDownloading :: bool
  lastCheckedL1Block :: u64

text \<open>\<open>NewL1Syncer\<close>: every field that the constructor does not set has its zero value.\<close>

definition NewL1Syncer :: "u64 \<Rightarrow> u64 \<Rightarrow> L1Syncer" where
  "NewL1Syncer blockRange' queryDelay' =
     \<lparr>blockRange = blockRange', queryDelay = queryDelay', latestL1Block = 0,
      isSyncStarted = False, isDownloading = False, lastCheckedL1Block = 0\<rparr>"

section \<open>The endpoint rotator (\<open>getNextEtherman\<close>)\<close>

text \<open>
  \<open>getNextEtherman\<close> on the endpoint list and the cursor, a \<open>uint8\<close>; the length of the
  list is converted to \<open>uint8\<close> for the comparison. It returns the endpoint with the new
  cursor; \<open>None\<close> is the panic of an index out of range. The mutex is not modelled.
\<close>

definition getNextEtherman :: "'e list \<Rightarrow> 8 word \<Rightarrow> ('e \<times> 8 word) option" where
  "getNextEtherman etherMans ethermanIndex =
     (let ethermanIndex = (if ethermanIndex \<ge> of_nat (length etherMans) then 0 else ethermanIndex)
      in if unat ethermanIndex < length etherMans
         then Some (etherMans ! unat ethermanIndex, ethermanIndex + 1)
         else None)"

text \<open>
  Every network call of the syncer is \<open>s.getNextEtherman()\<close> followed by one call on the
  endpoint it returns. The endpoints are external and interchangeable, and with at least
  one endpoint the rotator always returns one (lemma \<open>getNextEtherman_in_range\<close>); so in
  the functions below the answer of the endpoint taken for a call is an input, indexed
  by the number of the call.
\<close>

section \<open>Range planning (the first loop of \<open>queryBlocks\<close>)\<close>

text \<open>
  The planning loop of \<open>queryBlocks\<close>. It has no bound of its own: it leaves only when
  the clipped upper end \<open>high\<close> equals \<open>latestL1Block\<close>, so it is a partial function and
  \<open>None\<close> stands for a loop that never leaves. All arithmetic is on \<open>uint64\<close>.
\<close>

partial_function (option) planLoop :: "u64 \<Rightarrow> u64 \<Rightarrow> u64 \<Rightarrow> fetchJob list \<Rightarrow> fetchJob list option" where
  "planLoop blockRange' latestL1Block' low fetches =
     (let high = low + blockRange';
          high = (if high > latestL1Block' then latestL1Block' else high);
          fetches = fetches @ [\<lparr>From = low, To = high\<rparr>]
      in if high = latestL1Block' then Some fetches
         else planLoop blockRange' latestL1Block' (low + (blockRange' + 1)) fetches)"

declare planLoop.simps [code]

text \<open>\<open>fetches := make([]fetchJob, 0); low := startBlock; for { ... }\<close>\<close>

definition planFetches :: "u64 \<Rightarrow> u64 \<Rightarrow> u64 \<Rightarrow> fetchJob list option" where
  "planFetches startBlock latestL1Block' blockRange' = planLoop blockRange' latestL1Block' startBlock []"

text \<open>
  \<open>queryBlocks\<close>: plan the jobs from \<open>lastCheckedL1Block\<close> to \<open>latestL1Block\<close>, hand them
  to the worker pool and collect the results. The pool runs concurrently, so what the
  fan-in returns for the planned jobs (nil, or the first error received) is the input
  \<open>cycle\<close>; the consumers of the channels are taken to receive. \<open>None\<close> is a call
  that never returns because planning never ends.
\<close>

definition queryBlocks :: "(fetchJob list \<Rightarrow> error option) \<Rightarrow> L1Syncer \<Rightarrow> error option option" where
  "queryBlocks cycle s =
     (let startBlock = lastCheckedL1Block s
      in case planFetches startBlock (latestL1Block s) (blockRange s) of
           None \<Rightarrow> None
         | Some fetches \<Rightarrow> Some (cycle fetches))"

section \<open>The poll loop (\<open>Run\<close>)\<close>

text \<open>
  \<open>getLatestL1Block\<close>, given the endpoint's answer to \<open>BlockByNumber(finalized)\<close> (an
  error, or the number of the block): on success it stores the number in \<open>latestL1Block\<close>.
\<close>

definition getLatestL1Block :: "rpc_error + u64 \<Rightarrow> L1Syncer \<Rightarrow> (error + u64) \<times> L1Syncer" where
  "getLatestL1Block answer s =
     (case answer of
        Inl err \<Rightarrow> (Inl (EndpointError err), s)
      | Inr latest \<Rightarrow> (Inr latest, s\<lparr>latestL1Block := latest\<rparr>))"

text \<open>
  The points at which the state is recorded: when \<open>Run\<close> returns, after the loop's thread
  has stored \<open>isSyncStarted\<close>, after the latest-block query, after
  \<open>isDownloading.Store(true)\<close> just before the cycle, after
  \<open>lastCheckedL1Block.Store(latestL1Block)\<close>, and after \<open>isDownloading.Store(false)\<close>
  at the end of the iteration.
\<close>

datatype pollPoint =
    RunReturned
  | LoopStarted
  | LatestFailed
  | LatestOk u64
  | CycleStarted
  | CheckpointStored
  | IterationEnd

type_synonym pollTrace = "(pollPoint \<times> L1Syncer) list"

text \<open>
  What one iteration of the loop receives from outside: the endpoint's answer to the
  latest-block query, and what the worker pool returns for the jobs of the cycle.
\<close>

type_synonym pollInput = "(rpc_error + u64) \<times> (fetchJob list \<Rightarrow> error option)"

text \<open>
  One iteration of the \<open>for\<close> loop of \<open>Run\<close>. Its inputs are the endpoint's answer to the
  latest-block query and the outcome of the worker pool. It returns the states it went
  through and the state at the end of the iteration, \<open>None\<close> when the cycle never
  returns.
\<close>

definition pollIteration :: "pollInput \<Rightarrow> L1Syncer \<Rightarrow> pollTrace \<times> L1Syncer option" where
  "pollIteration input s =
     (case getLatestL1Block (fst input) s of
        (Inl err, s1) \<Rightarrow>
          (let s4 = s1\<lparr>isDownloading := False\<rparr>
           in ([(LatestFailed, s1), (IterationEnd, s4)], Some s4))
      | (Inr latestL1Block', s1) \<Rightarrow>
          if latestL1Block' > lastCheckedL1Block s1 then
            (let s2 = s1\<lparr>isDownloading := True\<rparr>
             in case queryBlocks (snd input) s2 of
                  None \<Rightarrow> ([(LatestOk latestL1Block', s1), (CycleStarted, s2)], None)
                | Some (Some err) \<Rightarrow>
                    (let s4 = s2\<lparr>isDownloading := False\<rparr>
                     in ([(LatestOk latestL1Block', s1), (CycleStarted, s2), (IterationEnd, s4)], Some s4))
                | Some None \<Rightarrow>
                    (let s3 = s2\<lparr>lastCheckedL1Block := latestL1Block'\<rparr>;
                         s4 = s3\<lparr>isDownloading := False\<rparr>
                     in ([(LatestOk latestL1Block', s1), (CycleStarted, s2), (CheckpointStored, s3),
                          (IterationEnd, s4)], Some s4)))
          else
            (let s4 = s1\<lparr>isDownloading := False\<rparr>
             in ([(LatestOk latestL1Block', s1), (IterationEnd, s4)], Some s4)))"

text \<open>
  The loop never leaves; a list of inputs gives its first iterations. The trace stops
  inside an iteration whose cycle never returns.
\<close>

fun pollLoop :: "pollInput list \<Rightarrow> L1Syncer \<Rightarrow> pollTrace" where
  "pollLoop [] s = []"
| "pollLoop (input # inputs) s =
     (case pollIteration input s of
        (tr, None) \<Rightarrow> tr
      | (tr, Some s') \<Rightarrow> tr @ pollLoop inputs s')"

text \<open>
  \<open>Run(lastCheckedBlock)\<close>, up to its return. When \<open>isSyncStarted\<close> is set it returns at
  once. Otherwise it does the two stores and starts the thread of the loop with
  \<open>go func() { ... }()\<close>; the result says whether a thread was started. \<open>Run\<close> itself
  does not store \<open>isSyncStarted\<close>: that is the first statement of the new thread, which
  runs at some later time.
\<close>

definition Run :: "u64 \<Rightarrow> L1Syncer \<Rightarrow> L1Syncer \<times> bool" where
  "Run lastCheckedBlock s =
     (if isSyncStarted s then (s, False)
      else
        (let s = s\<lparr>isDownloading := True\<rparr>;
             s = s\<lparr>lastCheckedL1Block := lastCheckedBlock\<rparr>
         in (s, True)))"

text \<open>
  The thread that \<open>Run\<close> starts, when nothing else writes the state while it runs: it
  stores \<open>isSyncStarted\<close> and enters the loop. The deferred
  \<open>isSyncStarted.Store(false)\<close> is never reached, since the loop has no exit.
\<close>

definition pollGoroutine :: "pollInput list \<Rightarrow> L1Syncer \<Rightarrow> pollTrace" where
  "pollGoroutine inputs s =
     (let s = s\<lparr>isSyncStarted := True\<rparr>
      in (LoopStarted, s) # pollLoop inputs s)"

text \<open>
  One call of \<open>Run\<close> and the thread it starts, with no other call of \<open>Run\<close> and no
  other thread of the loop during the trace.
\<close>

definition RunAlone :: "u64 \<Rightarrow> pollInput list \<Rightarrow> L1Syncer \<Rightarrow> pollTrace" where
  "RunAlone lastCheckedBlock inputs s =
     (case Run lastCheckedBlock s of
        (s', False) \<Rightarrow> []
      | (s', True) \<Rightarrow> (RunReturned, s') # pollGoroutine inputs s')"

section \<open>Several threads of the poll loop\<close>

text \<open>
  Callers of \<open>Run\<close> and the threads it starts share the \<open>L1Syncer\<close>. Here the thread of
  the loop is cut into its steps, so that the steps of several threads and further calls
  of \<open>Run\<close> can be put in any order. A thread is where it stands in the loop and the
  inputs of its iterations to come, the first of them being those of the iteration it
  is in. Where it stands:
  \<^item> \<open>Starting\<close>: before \<open>isSyncStarted.Store(true)\<close>;
  \<^item> \<open>Querying\<close>: at the top of the \<open>for\<close> loop, before \<open>BlockByNumber\<close>;
  \<^item> \<open>Answered a\<close>: inside \<open>getLatestL1Block\<close>, the endpoint has answered \<open>a\<close>, before
    the error test and the store to \<open>latestL1Block\<close>;
  \<^item> \<open>Checking latest\<close>: \<open>getLatestL1Block\<close> has returned \<open>latest\<close> without error;
  \<^item> \<open>Downloading latest\<close>: after \<open>isDownloading.Store(true)\<close>, before \<open>queryBlocks\<close>;
  \<^item> \<open>Storing latest\<close>: \<open>queryBlocks\<close> has returned nil;
  \<^item> \<open>Ending\<close>: before \<open>isDownloading.Store(false)\<close> and the sleep;
  \<^item> \<open>Blocked\<close>: inside a \<open>queryBlocks\<close> that never returns.
  The local variable \<open>latestL1Block\<close> of the loop is the argument of \<open>Checking\<close>,
  \<open>Downloading\<close> and \<open>Storing\<close>.
\<close>

datatype pollPc =
    Starting
  | Querying
  | Answered "rpc_error + u64"
  | Checking u64
  | Downloading u64
  | Storing u64
  | Ending
  | Blocked

record pollThread =
  pc :: pollPc
  pending :: "pollInput list"

text \<open>
  One step of a thread on the shared state; \<open>None\<close> when the thread has no step (it is
  blocked, or the inputs given to it are used up). The test
  \<open>latestL1Block > s.lastCheckedL1Block.Load()\<close> with the store that follows it is one
  step, and so is the whole of \<open>queryBlocks\<close>: every sequence of these steps is a
  sequence of steps of the code, which can interleave more finely still.
\<close>

definition threadStep :: "pollThread \<Rightarrow> L1Syncer \<Rightarrow> (pollThread \<times> L1Syncer) option" where
  "threadStep t s =
     (case pc t of
        Starting \<Rightarrow> Some (t\<lparr>pc := Querying\<rparr>, s\<lparr>isSyncStarted := True\<rparr>)
      | Querying \<Rightarrow>
          (case pending t of
             [] \<Rightarrow> None
           | input # inputs \<Rightarrow> Some (t\<lparr>pc := Answered (fst input)\<rparr>, s))
      | Answered answer \<Rightarrow>
          (case getLatestL1Block answer s of
             (Inl err, s1) \<Rightarrow> Some (t\<lparr>pc := Ending\<rparr>, s1)
           | (Inr latestL1Block', s1) \<Rightarrow> Some (t\<lparr>pc := Checking latestL1Block'\<rparr>, s1))
      | Checking latestL1Block' \<Rightarrow>
          if latestL1Block' > lastCheckedL1Block s
          then Some (t\<lparr>pc := Downloading latestL1Block'\<rparr>, s\<lparr>isDownloading := True\<rparr>)
          else Some (t\<lparr>pc := Ending\<rparr>, s)
      | Downloading latestL1Block' \<Rightarrow>
          (case pending t of
             [] \<Rightarrow> None
           | input # inputs \<Rightarrow>
               (case queryBlocks (snd input) s of
                  None \<Rightarrow> Some (t\<lparr>pc := Blocked\<rparr>, s)
                | Some (Some err) \<Rightarrow> Some (t\<lparr>pc := Ending\<rparr>, s)
                | Some None \<Rightarrow> Some (t\<lparr>pc := Storing latestL1Block'\<rparr>, s)))
      | Storing latestL1Block' \<Rightarrow>
          Some (t\<lparr>pc := Ending\<rparr>, s\<lparr>lastCheckedL1Block := latestL1Block'\<rparr>)
      | Ending \<Rightarrow>
          Some (t\<lparr>pc := Querying, pending := tl (pending t)\<rparr>, s\<lparr>isDownloading := False\<rparr>)
      | Blocked \<Rightarrow> None)"

text \<open>The shared syncer with the threads of the loop that have been started, oldest first.\<close>

record syncSystem =
  shared :: L1Syncer
  threads :: "pollThread list"

text \<open>
  What happens next: some caller runs \<open>Run(lastCheckedBlock)\<close> to its return (the thread
  it may start is given the inputs of its iterations), or the thread with the given
  number takes one step.
\<close>

datatype action =
    CallRun u64 "pollInput list"
  | StepThread nat

definition perform :: "action \<Rightarrow> syncSystem \<Rightarrow> syncSystem" where
  "perform a sys =
     (case a of
        CallRun lastCheckedBlock inputs \<Rightarrow>
          (case Run lastCheckedBlock (shared sys) of
             (s', False) \<Rightarrow> sys\<lparr>shared := s'\<rparr>
           | (s', True) \<Rightarrow>
               sys\<lparr>shared := s', threads := threads sys @ [\<lparr>pc = Starting, pending = inputs\<rparr>]\<rparr>)
      | StepThread i \<Rightarrow>
          if i < length (threads sys) then
            (case threadStep (threads sys ! i) (shared sys) of
               None \<Rightarrow> sys
             | Some (t', s') \<Rightarrow> sys\<lparr>shared := s', threads := (threads sys)[i := t']\<rparr>)
          else sys)"

text \<open>The systems reached after each action of a list, in order.\<close>

fun execute :: "action list \<Rightarrow> syncSystem \<Rightarrow> syncSystem list" where
  "execute [] sys = []"
| "execute (a # as) sys = (let sys' = perform a sys in sys' # execute as sys')"

section \<open>The fetch worker (\<open>getSequencedLogs\<close>)\<close>

text \<open>
  The answers of the endpoints to \<open>FilterLogs\<close> are an input: \<open>filterLogs n j\<close> is the
  answer to the \<open>n\<close>-th query this worker sends (counted from 0), asked for the block
  range of job \<open>j\<close>. Which endpoint of the rotation answers is part of that input.
\<close>

type_synonym filterLogsAnswers = "nat \<Rightarrow> fetchJob \<Rightarrow> rpc_error + ethLog list"

text \<open>What a worker does, in order: queries, sleeps (in seconds) and sends on \<open>results\<close>.\<close>

datatype workerEvent =
    FilterLogsCalled fetchJob
  | WorkerSlept int
  | ResultSent jobResult

text \<open>
  The inner \<open>for\<close> loop of \<open>getSequencedLogs\<close> for one job, entered with \<open>retry\<close>. It
  returns the last answer, the number of queries sent so far and the events.
\<close>

function fetchRetry ::
  "filterLogsAnswers \<Rightarrow> fetchJob \<Rightarrow> int \<Rightarrow> nat \<Rightarrow> workerEvent list
     \<Rightarrow> (rpc_error + ethLog list) \<times> nat \<times> workerEvent list" where
  "fetchRetry filterLogs j retry n tr =
     (case filterLogs n j of
        Inl err \<Rightarrow>
          (let retry = retry + 1
           in if retry > 5 then (Inl err, n + 1, tr @ [FilterLogsCalled j])
              else fetchRetry filterLogs j retry (n + 1)
                     (tr @ [FilterLogsCalled j, WorkerSlept (retry * 2)]))
      | Inr logs \<Rightarrow> (Inr logs, n + 1, tr @ [FilterLogsCalled j]))"
  by pat_completeness auto
termination
  by (relation "measure (\<lambda>(filterLogs, j, retry, n, tr). nat (6 - retry))") auto

declare fetchRetry.simps [simp del]

text \<open>
  What one \<open>select\<close> of the worker's outer loop receives: the closed \<open>stop\<close> channel, a
  job, or the closed \<open>jobs\<close> channel.
\<close>

datatype selected = StopClosed | JobReceived fetchJob | JobsClosed

text \<open>
  \<open>getSequencedLogs\<close> as a function of what its selects receive. The worker returns on
  \<open>stop\<close>, on the closed job queue, and after it has sent the result of a job whose
  retries are exhausted; with nothing left to receive it waits.
\<close>

fun getSequencedLogs ::
  "filterLogsAnswers \<Rightarrow> selected list \<Rightarrow> nat \<Rightarrow> workerEvent list \<Rightarrow> workerEvent list" where
  "getSequencedLogs filterLogs [] n tr = tr"
| "getSequencedLogs filterLogs (StopClosed # sels) n tr = tr"
| "getSequencedLogs filterLogs (JobsClosed # sels) n tr = tr"
| "getSequencedLogs filterLogs (JobReceived j # sels) n tr =
     (case fetchRetry filterLogs j 0 n tr of
        (Inl err, n', tr') \<Rightarrow>
          tr' @ [ResultSent \<lparr>Size = 0, Error = Some (EndpointError err), Logs = []\<rparr>]
      | (Inr logs, n', tr') \<Rightarrow>
          getSequencedLogs filterLogs sels n'
            (tr' @ [ResultSent \<lparr>Size = To j - From j, Error = None, Logs = logs\<rparr>]))"

section \<open>The backward resolver (\<open>GetOldAccInputHash\<close>)\<close>

text \<open>
  The call data of \<open>rollupSequencedBatches\<close>: the selector \<open>0x25280169\<close>, then the rollup
  id and the batch number, each printed by \<open>%064x\<close>, that is as 32 bytes, big-endian.
\<close>

definition bigEndianBytes :: "u64 \<Rightarrow> byte list" where
  "bigEndianBytes n = map (\<lambda>i. ucast (drop_bit (8 * i) n)) [7, 6, 5, 4, 3, 2, 1, 0]"

definition callData :: "u64 \<Rightarrow> u64 \<Rightarrow> byte list" where
  "callData rollupId batchNum' =
     [0x25, 0x28, 0x01, 0x69]
       @ (replicate 24 0 @ bigEndianBytes rollupId)
       @ (replicate 24 0 @ bigEndianBytes batchNum')"

text \<open>\<open>binary.BigEndian.Uint64\<close> on the eight bytes it is given.\<close>

definition BigEndianUint64 :: "byte list \<Rightarrow> u64" where
  "BigEndianUint64 bs = foldl (\<lambda>acc b. push_bit 8 acc + ucast b) 0 bs"

text \<open>
  The answers of the endpoints to \<open>CallContract\<close> are an input: \<open>callContract n addr data\<close>
  is the answer to the \<open>n\<close>-th call of one resolution (counted from 0), whichever
  endpoint of the rotation it goes to. An endpoint that always answers the same to the
  same call data is a function that ignores \<open>n\<close>.
\<close>

type_synonym callContractAnswers = "nat \<Rightarrow> address \<Rightarrow> byte list \<Rightarrow> rpc_error + byte list"

text \<open>
  \<open>callGetRollupSequencedBatches\<close>: the hash is \<open>resp[:32]\<close>, the previous batch number
  is \<open>resp[88:96]\<close> read big-endian. Go returns a zero hash and 0 beside an error; the
  caller reads neither.
\<close>

definition callGetRollupSequencedBatches ::
  "callContractAnswers \<Rightarrow> nat \<Rightarrow> address \<Rightarrow> u64 \<Rightarrow> u64 \<Rightarrow> error + (Hash \<times> u64)" where
  "callGetRollupSequencedBatches callContract n addr rollupId batchNum' =
     (case callContract n addr (callData rollupId batchNum') of
        Inl err \<Rightarrow> Inl (EndpointError err)
      | Inr resp \<Rightarrow>
          if length resp < 32 then Inl errorShortResponseLT32
          else
            (let h = take 32 resp
             in if length resp < 96 then Inl errorShortResponseLT96
                else
                  (let lastBatchNumber = BigEndianUint64 (take 8 (drop 88 resp))
                   in Inr (h, lastBatchNumber))))"

text \<open>What the resolver does, in order: contract calls (with the batch number asked) and sleeps.\<close>

datatype resolverEvent =
    ContractCalled u64
  | ResolverSlept int

text \<open>The variables of the loop, with the number of calls made and the events so far.\<close>

record resolverState =
  loopCount :: int
  batchNum :: u64
  calls :: nat
  events :: "resolverEvent list"

datatype resolverStep =
    Return "Hash \<times> error option" "resolverEvent list"
  | Continue resolverState

text \<open>One pass through the body of the \<open>for\<close> loop of \<open>GetOldAccInputHash\<close>.\<close>

definition resolveStep :: "callContractAnswers \<Rightarrow> address \<Rightarrow> u64 \<Rightarrow> resolverState \<Rightarrow> resolverStep" where
  "resolveStep callContract addr rollupId st =
     (if loopCount st = 10 then Return (ZeroHash, Some errorTooManyRetries) (events st)
      else
        (let called = events st @ [ContractCalled (batchNum st)]
         in case callGetRollupSequencedBatches callContract (calls st) addr rollupId (batchNum st) of
              Inl err \<Rightarrow>
                if batchNum st > 0 \<and> (err = errorShortResponseLT32 \<or> err = errorShortResponseLT96)
                then Continue (st\<lparr>batchNum := batchNum st - 1, calls := calls st + 1, events := called\<rparr>)
                else Continue (st\<lparr>loopCount := loopCount st + 1, calls := calls st + 1,
                                 events := called @ [ResolverSlept (loopCount st * 2)]\<rparr>)
            | Inr (h, previousBatch) \<Rightarrow>
                if h \<noteq> ZeroHash then Return (h, None) called
                else if batchNum st > 0 \<and> previousBatch = 0
                then Continue (st\<lparr>batchNum := batchNum st - 1, calls := calls st + 1, events := called\<rparr>)
                else Continue (st\<lparr>batchNum := previousBatch, loopCount := loopCount st + 1,
                                 calls := calls st + 1, events := called\<rparr>)))"

text \<open>
  The loop. Nothing in its text bounds it, so it is a partial function; that it returns
  is a theorem below.
\<close>

partial_function (option) resolveLoop ::
  "callContractAnswers \<Rightarrow> address \<Rightarrow> u64 \<Rightarrow> resolverState \<Rightarrow> ((Hash \<times> error option) \<times> resolverEvent list) option" where
  "resolveLoop callContract addr rollupId st =
     (case resolveStep callContract addr rollupId st of
        Return r evs \<Rightarrow> Some (r, evs)
      | Continue st' \<Rightarrow> resolveLoop callContract addr rollupId st')"

declare resolveLoop.simps [code]

definition GetOldAccInputHash ::
  "callContractAnswers \<Rightarrow> address \<Rightarrow> u64 \<Rightarrow> u64 \<Rightarrow> ((Hash \<times> error option) \<times> resolverEvent list) option" where
  "GetOldAccInputHash callContract addr rollupId batchNum' =
     resolveLoop callContract addr rollupId \<lparr>loopCount = 0, batchNum = batchNum', calls = 0, events = []\<rparr>"

section \<open>Vocabulary of the properties\<close>

subsection \<open>Job sequences\<close>

text \<open>The blocks of a job: the closed interval from \<open>From\<close> to \<open>To\<close>.\<close>

definition jobBlocks :: "fetchJob \<Rightarrow> u64 set" where
  "jobBlocks j = {From j..To j}"

text \<open>Each job starts one block after the end of the job before it.\<close>

fun contiguous :: "fetchJob list \<Rightarrow> bool" where
  "contiguous [] = True"
| "contiguous [j] = True"
| "contiguous (j # k # js) = (From k = To j + 1 \<and> contiguous (k # js))"

text \<open>No block belongs to two jobs of the sequence.\<close>

fun nonOverlapping :: "fetchJob list \<Rightarrow> bool" where
  "nonOverlapping [] = True"
| "nonOverlapping (j # js) = ((\<forall>k \<in> set js. jobBlocks j \<inter> jobBlocks k = {}) \<and> nonOverlapping js)"

definition covered :: "fetchJob list \<Rightarrow> u64 set" where
  "covered js = (\<Union>j \<in> set js. jobBlocks j)"

text \<open>
  A non-empty chain of jobs from \<open>low\<close> to \<open>latest\<close>: the first job starts at \<open>low\<close>,
  every job but the last ends before \<open>latest\<close> and is followed by a chain that starts
  one block later, and the last job ends at \<open>latest\<close>.
\<close>

fun jobsFrom :: "u64 \<Rightarrow> u64 \<Rightarrow> fetchJob list \<Rightarrow> bool" where
  "jobsFrom low latest [] = False"
| "jobsFrom low latest [j] = (From j = low \<and> low \<le> To j \<and> To j = latest)"
| "jobsFrom low latest (j # k # js) =
     (From j = low \<and> low \<le> To j \<and> To j < latest \<and> jobsFrom (To j + 1) latest (k # js))"

subsection \<open>Traces of the poll loop\<close>

text \<open>The latest-block numbers of the queries that succeed, in order.\<close>

fun latestAnswers :: "pollInput list \<Rightarrow> u64 list" where
  "latestAnswers [] = []"
| "latestAnswers ((Inl err, cycle) # inputs) = latestAnswers inputs"
| "latestAnswers ((Inr latest, cycle) # inputs) = latest # latestAnswers inputs"

text \<open>The part of a trace that starts at the first successful latest-block query.\<close>

definition sinceFirstLatest :: "pollTrace \<Rightarrow> pollTrace" where
  "sinceFirstLatest tr = dropWhile (\<lambda>x. case fst x of LatestOk latest \<Rightarrow> False | _ \<Rightarrow> True) tr"

text \<open>The checkpoints of the states of a trace, in order.\<close>

definition checkpoints :: "pollTrace \<Rightarrow> u64 list" where
  "checkpoints tr = map (\<lambda>x. lastCheckedL1Block (snd x)) tr"

text \<open>The invariant of the poll loop that the specification names.\<close>

definition checkpointBelowLatest :: "L1Syncer \<Rightarrow> bool" where
  "checkpointBelowLatest s \<longleftrightarrow> lastCheckedL1Block s \<le> latestL1Block s"

subsection \<open>The backward resolver\<close>

text \<open>
  The measure of the resolver's loop: the attempts left out of 10, then the batch number,
  compared lexicographically.
\<close>

definition resolverMeasure :: "resolverState \<Rightarrow> nat \<times> nat" where
  "resolverMeasure st = (nat (10 - loopCount st), unat (batchNum st))"

subsection \<open>Endpoints used as examples\<close>

text \<open>
  A contract of rollup 7 that has a non-zero hash at batch 0, a zero hash with previous
  batch number 6 at batch 8, and a zero hash with previous batch number 0 elsewhere.
\<close>

definition walkBackContract :: callContractAnswers where
  "walkBackContract n addr data =
     (if data = callData 7 0 then Inr (replicate 31 0 @ [1] @ replicate 64 0)
      else if data = callData 7 8 then Inr (replicate 88 0 @ [0, 0, 0, 0, 0, 0, 0, 6])
      else Inr (replicate 96 0))"

text \<open>
  A contract of rollup 7 that answers 40 bytes at batch 4, 10 bytes at batch 3 and
  96 bytes with a non-zero hash at batch 2; every other call fails.
\<close>

definition shortAnswerContract :: callContractAnswers where
  "shortAnswerContract n addr data =
     (if data = callData 7 4 then Inr (replicate 40 0)
      else if data = callData 7 3 then Inr (replicate 10 0)
      else if data = callData 7 2 then Inr (replicate 31 0 @ [9] @ replicate 64 0)
      else Inl (RpcError n))"

text \<open>Endpoints whose log queries all fail, the \<open>n\<close>-th with error \<open>n\<close>.\<close>

definition failingFilterLogs :: filterLogsAnswers where
  "failingFilterLogs n j = Inl (RpcError n)"

subsection \<open>Two calls of \<open>Run\<close> in a row\<close>

text \<open>
  \<open>Run(10)\<close> and then \<open>Run(20)\<close> before the thread of the first call has stored
  \<open>isSyncStarted\<close>. The finalized block is 90 when the first thread asks and 100 when
  the second asks, and every cycle succeeds. The first thread passes the test of the
  loop with 90; the second then runs its iteration to the end; then the first runs its
  cycle and stores its checkpoint.
\<close>

definition racingRuns :: "action list" where
  "racingRuns =
     [CallRun 10 [(Inr 90, \<lambda>fetches. None)],
      CallRun 20 [(Inr 100, \<lambda>fetches. None)],
      StepThread 0, StepThread 1,
      StepThread 0, StepThread 0, StepThread 0,
      StepThread 1, StepThread 1, StepThread 1, StepThread 1, StepThread 1, StepThread 1,
      StepThread 0, StepThread 0, StepThread 0]"

text \<open>
  The same two calls, with the other order of the stores to \<open>latestL1Block\<close>: the first
  thread is answered 90, the second is answered 100 and stores it, the first then
  stores its 90, and the second runs its iteration on to the store of its checkpoint.
\<close>

definition racingLatest :: "action list" where
  "racingLatest =
     [CallRun 10 [(Inr 90, \<lambda>fetches. None)],
      CallRun 20 [(Inr 100, \<lambda>fetches. None)],
      StepThread 0, StepThread 1,
      StepThread 0, StepThread 1, StepThread 1, StepThread 0,
      StepThread 1, StepThread 1, StepThread 1]"

section \<open>The endpoint rotator: results\<close>

text \<open>With at least one endpoint the rotator never indexes out of range.\<close>

lemma getNextEtherman_in_range:
  assumes "etherMans \<noteq> []"
  shows "\<exists>em i. getNextEtherman etherMans ethermanIndex = Some (em, i) \<and> em \<in> set etherMans"
proof -
  let ?n = "of_nat (length etherMans) :: 8 word"
  let ?i = "if ethermanIndex \<ge> ?n then 0 else ethermanIndex"
  have "unat ?i < length etherMans"
  proof (cases "ethermanIndex \<ge> ?n")
    case True
    then show ?thesis using assms by simp
  next
    case False
    then have "ethermanIndex < ?n" by (simp add: not_le)
    then have "unat ethermanIndex < unat ?n" by (simp only: word_less_nat_alt)
    also have "unat ?n \<le> length etherMans" by (simp add: unat_of_nat)
    finally show ?thesis using False by simp
  qed
  then show ?thesis by (auto simp: getNextEtherman_def Let_def)
qed

section \<open>Range planning: results\<close>

subsection \<open>Chains of jobs\<close>

lemma word_succ: "(a::u64) < b \<Longrightarrow> a < a + 1 \<and> a + 1 \<le> b"
  by unat_arith

lemma jobsFrom_Cons:
  "js \<noteq> [] \<Longrightarrow> jobsFrom low latest (j # js) =
     (From j = low \<and> low \<le> To j \<and> To j < latest \<and> jobsFrom (To j + 1) latest js)"
  by (cases js) simp_all

lemma jobsFrom_bounds:
  "jobsFrom low latest js \<Longrightarrow> j \<in> set js \<Longrightarrow> low \<le> From j \<and> From j \<le> To j \<and> To j \<le> latest"
proof (induction low latest js rule: jobsFrom.induct)
  case (3 low latest a k js)
  then have a: "From a = low" "low \<le> To a" "To a < latest"
    and r: "jobsFrom (To a + 1) latest (k # js)"
    by simp_all
  show ?case
  proof (cases "j = a")
    case True
    then show ?thesis using a by simp
  next
    case False
    then have "j \<in> set (k # js)" using "3.prems"(2) by simp
    from "3.IH" [OF r this]
    have "To a + 1 \<le> From j" "From j \<le> To j" "To j \<le> latest" by simp_all
    moreover have "To a < To a + 1" using word_succ [OF a(3)] by simp
    ultimately show ?thesis using a(2) by simp
  qed
qed simp_all

lemma jobsFrom_hd: "jobsFrom low latest js \<Longrightarrow> js \<noteq> [] \<and> From (hd js) = low"
  by (induction low latest js rule: jobsFrom.induct) auto

lemma jobsFrom_contiguous: "jobsFrom low latest js \<Longrightarrow> contiguous js"
proof (induction low latest js rule: jobsFrom.induct)
  case (3 low latest j k js)
  then show ?case using jobsFrom_hd [of "To j + 1" latest "k # js"] by simp
qed simp_all

lemma jobsFrom_sorted: "jobsFrom low latest js \<Longrightarrow> sorted_wrt (\<lambda>a b. From a < From b) js"
proof (induction low latest js rule: jobsFrom.induct)
  case (3 low latest a k js)
  then have a: "From a = low" "low \<le> To a" "To a < latest"
    and r: "jobsFrom (To a + 1) latest (k # js)"
    by simp_all
  have "From a < From j" if "j \<in> set (k # js)" for j
    using jobsFrom_bounds [OF r that] word_succ [OF a(3)] a by auto
  then show ?case using "3.IH" r by simp
qed simp_all

lemma jobsFrom_nonOverlapping: "jobsFrom low latest js \<Longrightarrow> nonOverlapping js"
proof (induction low latest js rule: jobsFrom.induct)
  case (3 low latest a k js)
  then have a: "From a = low" "low \<le> To a" "To a < latest"
    and r: "jobsFrom (To a + 1) latest (k # js)"
    by simp_all
  have "jobBlocks a \<inter> jobBlocks j = {}" if "j \<in> set (k # js)" for j
    using jobsFrom_bounds [OF r that] word_succ [OF a(3)] by (auto simp: jobBlocks_def)
  then show ?case using "3.IH" r by simp
qed simp_all

lemma split_range:
  assumes "(low::u64) \<le> t" and "t < latest"
  shows "{low..t} \<union> {t + 1..latest} = {low..latest}"
proof (intro set_eqI iffI)
  fix x assume "x \<in> {low..t} \<union> {t + 1..latest}"
  then show "x \<in> {low..latest}" using assms word_succ [OF assms(2)] by auto
next
  fix x assume x: "x \<in> {low..latest}"
  show "x \<in> {low..t} \<union> {t + 1..latest}"
  proof (cases "x \<le> t")
    case True
    then show ?thesis using x by simp
  next
    case False
    then have "t < x" by simp
    then have "t + 1 \<le> x" using word_succ by blast
    then show ?thesis using x by simp
  qed
qed

lemma jobsFrom_covered: "jobsFrom low latest js \<Longrightarrow> covered js = {low..latest}"
proof (induction low latest js rule: jobsFrom.induct)
  case (3 low latest a k js)
  then have a: "From a = low" "low \<le> To a" "To a < latest"
    and r: "jobsFrom (To a + 1) latest (k # js)"
    by simp_all
  have "covered (a # k # js) = jobBlocks a \<union> covered (k # js)"
    by (simp add: covered_def)
  also have "\<dots> = {low..To a} \<union> {To a + 1..latest}"
    using "3.IH" [OF r] a by (simp add: jobBlocks_def)
  finally show ?case using split_range [OF a(2,3)] by simp
qed (simp_all add: covered_def jobBlocks_def)

subsection \<open>The planning loop builds a chain\<close>

lemma planLoop_jobsFrom:
  assumes "low \<le> latest" and "unat latest + unat width < 2 ^ 64"
  shows "\<exists>js. planLoop width latest low acc = Some (acc @ js) \<and> jobsFrom low latest js"
  using assms
proof (induction "unat latest - unat low" arbitrary: low acc rule: less_induct)
  case less
  let ?high = "low + width"
  let ?job = "\<lparr>From = low, To = ?high\<rparr>"
  have lo: "unat low \<le> unat latest"
    using less.prems(1) by (simp add: word_le_nat_alt)
  have uh: "unat ?high = unat low + unat width"
    using lo less.prems(2) by (simp add: unat_add_lem [THEN iffD1])
  have le_high: "low \<le> ?high"
    using uh by (simp add: word_le_nat_alt)
  show ?case
  proof (cases "latest \<le> ?high")
    case True
    then have "planLoop width latest low acc = Some (acc @ [\<lparr>From = low, To = latest\<rparr>])"
      by (subst planLoop.simps) (auto simp: Let_def)
    then show ?thesis using less.prems(1) by simp
  next
    case False
    then have hl: "?high < latest" by simp
    then have uhl: "unat ?high < unat latest"
      by (simp add: word_less_nat_alt)
    let ?low' = "low + (width + 1)"
    have low': "?low' = ?high + 1" by simp
    have ul': "unat ?low' = unat ?high + 1"
      unfolding low' using uhl less.prems(2) by (simp add: unat_add_lem [THEN iffD1])
    have l'le: "?low' \<le> latest"
      using ul' uhl by (simp add: word_le_nat_alt)
    have dec: "unat latest - unat ?low' < unat latest - unat low"
      using ul' uh uhl by simp
    from less.hyps [OF dec l'le less.prems(2), of "acc @ [?job]"]
    obtain js where js: "planLoop width latest ?low' (acc @ [?job]) = Some ((acc @ [?job]) @ js)"
      and jf: "jobsFrom ?low' latest js"
      by blast
    have ne: "js \<noteq> []" using jf by auto
    have step: "planLoop width latest low acc = planLoop width latest ?low' (acc @ [?job])"
      using hl by (subst planLoop.simps) (auto simp: Let_def)
    have "jobsFrom low latest (?job # js)"
      using ne jf le_high hl low' by (simp add: jobsFrom_Cons)
    then show ?thesis using step js by auto
  qed
qed

lemma planLoop_nonempty: "planLoop width latest low acc = Some js \<Longrightarrow> js \<noteq> []"
  by (erule planLoop.raw_induct [where P = "\<lambda>_ _ _ _ js. js \<noteq> []", rotated])
     (auto simp: Let_def split: if_splits)

lemma planLoop_single:
  "latest \<le> low + width \<Longrightarrow> planLoop width latest low acc = Some (acc @ [\<lparr>From = low, To = latest\<rparr>])"
  by (subst planLoop.simps) (auto simp: Let_def)

subsection \<open>A planning loop that never leaves\<close>

text \<open>
  The loop need not leave: with \<open>blockRange = 2^64 - 1\<close>, start 1 and end 5 every pass
  computes \<open>high = 0\<close> and \<open>low = 1\<close> again.
\<close>

lemma planLoop_never_leaves_aux:
  "planLoop width latest low acc = Some js \<Longrightarrow> \<not> (width = - 1 \<and> latest = 5 \<and> low = 1)"
  apply (erule planLoop.raw_induct
        [where P = "\<lambda>width latest low _ _. \<not> (width = - 1 \<and> latest = 5 \<and> low = 1)", rotated])
  apply (auto simp: Let_def split: if_splits)
  apply blast
  done

lemma planFetches_never_leaves: "planFetches 1 5 18446744073709551615 = None"
proof -
  have "planLoop (- 1) 5 1 [] \<noteq> Some js" for js
    using planLoop_never_leaves_aux [of "- 1" 5 1 "[]" js] by auto
  then have "planLoop (- 1) 5 1 [] = None" by (cases "planLoop (- 1) 5 1 []") auto
  moreover have "(18446744073709551615 :: u64) = - 1" by simp
  ultimately show ?thesis unfolding planFetches_def by metis
qed

subsection \<open>Coverage of a cycle\<close>

text \<open>
  C2 (as stated, refuted). The planned jobs are computed in \<open>uint64\<close>: with
  \<open>blockRange = 2^64 - 2\<close>, \<open>lastCheckedL1Block = 2\<close> and \<open>latestL1Block = 5\<close> the sum
  \<open>low + blockRange\<close> wraps around, the jobs are [2,0] and [1,5], they are not in
  ascending order of \<open>From\<close> and they do not cover exactly the blocks 2 to 5.
\<close>

theorem planFetches_wraparound:
  "(2::u64) \<le> 5
   \<and> planFetches 2 5 18446744073709551614 = Some [\<lparr>From = 2, To = 0\<rparr>, \<lparr>From = 1, To = 5\<rparr>]
   \<and> \<not> sorted_wrt (\<lambda>a b. From a < From b) [\<lparr>From = 2, To = 0\<rparr>, \<lparr>From = 1, To = 5::u64\<rparr>]
   \<and> covered [\<lparr>From = 2, To = 0\<rparr>, \<lparr>From = 1, To = 5::u64\<rparr>] \<noteq> {2..5}"
  by (auto simp: planFetches_def planLoop.simps Let_def covered_def jobBlocks_def)

text \<open>
  C2 (amended). For every cycle with \<open>lastCheckedL1Block \<le> latestL1Block\<close> in which
  \<open>latestL1Block + blockRange\<close> does not exceed the largest \<open>uint64\<close>, the planning loop
  returns a sequence of jobs that is ordered by \<open>From\<close> ascending, contiguous (each job's
  \<open>From\<close> is the previous job's \<open>To + 1\<close>) and non-overlapping, and whose union is exactly
  the closed interval from \<open>lastCheckedL1Block\<close> to \<open>latestL1Block\<close>.
\<close>

theorem planFetches_covers:
  assumes "startBlock \<le> latest" and "unat latest + unat width < 2 ^ 64"
  shows "\<exists>js. planFetches startBlock latest width = Some js
           \<and> sorted_wrt (\<lambda>a b. From a < From b) js
           \<and> contiguous js
           \<and> nonOverlapping js
           \<and> covered js = {startBlock..latest}"
proof -
  from planLoop_jobsFrom [OF assms, of "[]"]
  obtain js where js: "planFetches startBlock latest width = Some js"
    and chain: "jobsFrom startBlock latest js"
    by (auto simp: planFetches_def)
  show ?thesis
    using js jobsFrom_sorted [OF chain] jobsFrom_contiguous [OF chain]
      jobsFrom_nonOverlapping [OF chain] jobsFrom_covered [OF chain]
    by blast
qed

theorem planFetches_covers_witness:
  "(100::u64) \<le> 2500 \<and> unat (2500::u64) + unat (1000::u64) < 2 ^ 64
   \<and> (\<exists>js. planFetches 100 2500 1000 = Some js
         \<and> sorted_wrt (\<lambda>a b. From a < From b) js
         \<and> contiguous js
         \<and> nonOverlapping js
         \<and> covered js = {100..2500})"
proof -
  have h1: "(100::u64) \<le> 2500" by simp
  have h2: "unat (2500::u64) + unat (1000::u64) < 2 ^ 64" by simp
  show ?thesis using h1 h2 planFetches_covers [OF h1 h2] by blast
qed

subsection \<open>The example of the specification\<close>

text \<open>
  C7 (as stated, refuted). Planning with start 0, end 2500 and width 1000 does not give
  the jobs [0,1000], [1001,2000], [2001,2500]: every full job runs from \<open>low\<close> to
  \<open>low + blockRange\<close> inclusive.
\<close>

theorem planFetches_example_2500_refuted:
  "planFetches 0 2500 1000 \<noteq>
     Some [\<lparr>From = 0, To = 1000\<rparr>, \<lparr>From = 1001, To = 2000\<rparr>, \<lparr>From = 2001, To = 2500\<rparr>]"
  by (simp add: planFetches_def planLoop.simps Let_def)

text \<open>
  C7 (amended). Planning with start 0, end 2500 and width 1000 gives exactly the three
  jobs [0,1000], [1001,2001], [2002,2500].
\<close>

theorem planFetches_example_2500:
  "planFetches 0 2500 1000 =
     Some [\<lparr>From = 0, To = 1000\<rparr>, \<lparr>From = 1001, To = 2001\<rparr>, \<lparr>From = 2002, To = 2500\<rparr>]"
  by (simp add: planFetches_def planLoop.simps Let_def)

subsection \<open>No forward progress\<close>

text \<open>
  C8 (as stated, refuted). With start 5, end 3 and width 10 the planner does not return
  the empty sequence: it returns the single job [5,3].
\<close>

theorem planFetches_reversed_example:
  "(3::u64) < 5 \<and> planFetches 5 3 10 = Some [\<lparr>From = 5, To = 3\<rparr>] \<and> planFetches 5 3 10 \<noteq> Some []"
  by (simp add: planFetches_def planLoop.simps Let_def)

text \<open>
  C8 (amended). For every start > end for which \<open>start + width\<close> does not exceed the
  largest \<open>uint64\<close>, the planner returns exactly one job, from start to end; and for no
  input at all does the planner return an empty sequence, so a cycle is never given one.
\<close>

theorem planFetches_reversed:
  "(latest < startBlock \<and> unat startBlock + unat width < 2 ^ 64
      \<longrightarrow> planFetches startBlock latest width = Some [\<lparr>From = startBlock, To = latest\<rparr>])
   \<and> planFetches startBlock' latest' width' \<noteq> Some []"
proof (intro conjI impI)
  assume a: "latest < startBlock \<and> unat startBlock + unat width < 2 ^ 64"
  then have "unat (startBlock + width) = unat startBlock + unat width"
    by (simp add: unat_add_lem [THEN iffD1])
  then have "startBlock \<le> startBlock + width"
    by (simp add: word_le_nat_alt)
  moreover have "latest \<le> startBlock" using a by (simp add: order_less_imp_le)
  ultimately have "latest \<le> startBlock + width" by (rule order_trans [rotated])
  then show "planFetches startBlock latest width = Some [\<lparr>From = startBlock, To = latest\<rparr>]"
    using planLoop_single [of latest startBlock width "[]"] by (simp add: planFetches_def)
next
  show "planFetches startBlock' latest' width' \<noteq> Some []"
    using planLoop_nonempty [of width' latest' startBlock' "[]" "[]"]
    by (auto simp: planFetches_def)
qed

theorem planFetches_reversed_witness:
  "(3::u64) < 5 \<and> unat (5::u64) + unat (10::u64) < 2 ^ 64
   \<and> planFetches 5 3 10 = Some [\<lparr>From = 5, To = 3\<rparr>]
   \<and> planFetches 0 2500 1000 \<noteq> Some []"
  using planFetches_reversed [of 3 5 10 0 2500 1000] by simp

section \<open>The poll loop: results\<close>

subsection \<open>One loop alone never lowers the checkpoint\<close>

lemma pollIteration_Inl:
  "pollIteration (Inl err, cycle) s =
     ([(LatestFailed, s), (IterationEnd, s\<lparr>isDownloading := False\<rparr>)], Some (s\<lparr>isDownloading := False\<rparr>))"
  by (simp add: pollIteration_def getLatestL1Block_def Let_def)

lemma pollIteration_last:
  "pollIteration input s = (tr, r) \<Longrightarrow> tr \<noteq> [] \<and> (\<forall>s'. r = Some s' \<longrightarrow> s' = snd (last tr))"
  by (cases "fst input")
     (auto simp: pollIteration_def getLatestL1Block_def Let_def split: if_splits option.splits)

lemma pollIteration_sorted:
  "pollIteration input s = (tr, r) \<Longrightarrow> sorted (lastCheckedL1Block s # checkpoints tr)"
  by (cases "fst input")
     (auto simp: pollIteration_def getLatestL1Block_def Let_def checkpoints_def order_less_imp_le
           split: if_splits option.splits)

lemma sorted_le_last: "sorted xs \<Longrightarrow> x \<in> set xs \<Longrightarrow> x \<le> last (xs :: 'a::linorder list)"
  by (induction xs) auto

lemma sorted_chain:
  fixes a :: "'a::linorder"
  assumes "sorted (a # xs)" and "xs \<noteq> []" and "sorted (last xs # ys)"
  shows "sorted (a # xs @ ys)"
proof -
  have "x \<le> y" if "x \<in> set (a # xs)" and "y \<in> set ys" for x y
  proof -
    have "x \<le> last (a # xs)" using assms(1) that(1) by (rule sorted_le_last)
    then have "x \<le> last xs" using assms(2) by simp
    also have "last xs \<le> y" using assms(3) that(2) by simp
    finally show ?thesis .
  qed
  then show ?thesis using assms(1,3) by (auto simp: sorted_append)
qed

lemma pollLoop_sorted: "sorted (lastCheckedL1Block s # checkpoints (pollLoop inputs s))"
proof (induction inputs arbitrary: s)
  case Nil
  then show ?case by (simp add: checkpoints_def)
next
  case (Cons input inputs)
  obtain tr r where it: "pollIteration input s = (tr, r)" by (cases "pollIteration input s")
  note srt = pollIteration_sorted [OF it] and lst = pollIteration_last [OF it]
  show ?case
  proof (cases r)
    case None
    then show ?thesis using it srt by simp
  next
    case (Some s')
    then have s': "lastCheckedL1Block s' = last (checkpoints tr)" "checkpoints tr \<noteq> []"
      using lst by (simp_all add: checkpoints_def last_map)
    have "sorted (lastCheckedL1Block s # checkpoints tr @ checkpoints (pollLoop inputs s'))"
      using sorted_chain [OF srt s'(2)] Cons.IH [of s'] s'(1) by simp
    then show ?thesis using it Some by (simp add: checkpoints_def)
  qed
qed

lemma pollIteration_cycle_started:
  "CycleStarted \<in> fst ` set (fst (pollIteration (answer, cycle) s))
     \<longleftrightarrow> (\<exists>latest. answer = Inr latest \<and> lastCheckedL1Block s < latest)"
  by (cases answer)
     (auto simp: pollIteration_def getLatestL1Block_def Let_def split: option.splits)

lemma pollIteration_checkpoint:
  "snd (pollIteration (answer, cycle) s) = Some s' \<Longrightarrow>
     lastCheckedL1Block s' =
       (case answer of
          Inl err \<Rightarrow> lastCheckedL1Block s
        | Inr latest \<Rightarrow>
            if lastCheckedL1Block s < latest
               \<and> queryBlocks cycle (s\<lparr>latestL1Block := latest, isDownloading := True\<rparr>) = Some None
            then latest else lastCheckedL1Block s)"
  by (cases answer)
     (auto simp: pollIteration_def getLatestL1Block_def Let_def split: option.splits if_splits)

lemma pollGoroutine_sorted: "sorted (lastCheckedL1Block s # checkpoints (pollGoroutine inputs s))"
proof -
  let ?s = "s\<lparr>isSyncStarted := True\<rparr>"
  have "checkpoints (pollGoroutine inputs s) = lastCheckedL1Block ?s # checkpoints (pollLoop inputs ?s)"
    by (simp add: pollGoroutine_def checkpoints_def Let_def)
  then show ?thesis using pollLoop_sorted [of ?s inputs] by simp
qed

lemma RunAlone_sorted: "sorted (checkpoints (RunAlone lastCheckedBlock inputs s))"
proof (cases "isSyncStarted s")
  case True
  then show ?thesis by (simp add: RunAlone_def Run_def checkpoints_def)
next
  case False
  let ?s = "s\<lparr>isDownloading := True, lastCheckedL1Block := lastCheckedBlock\<rparr>"
  have "checkpoints (RunAlone lastCheckedBlock inputs s)
          = lastCheckedL1Block ?s # checkpoints (pollGoroutine inputs ?s)"
    using False by (simp add: RunAlone_def Run_def checkpoints_def Let_def)
  then show ?thesis using pollGoroutine_sorted [of ?s inputs] by simp
qed

text \<open>
  With one loop and no other writer, \<open>lastCheckedL1Block\<close> is non-decreasing along every
  sequence of iterations, from any state and also from the one call of \<open>Run\<close>. A cycle
  is started exactly when the latest-block query succeeds with a block strictly above
  \<open>lastCheckedL1Block\<close>; at the end of an iteration \<open>lastCheckedL1Block\<close> is that latest
  block when such a cycle returned no error, and is unchanged when the query failed,
  when the latest block is not strictly above it, or when the cycle returned an error.
\<close>

lemma single_loop_checkpoint_monotone:
  "sorted (lastCheckedL1Block s # checkpoints (pollLoop inputs s))
   \<and> sorted (checkpoints (RunAlone lastCheckedBlock inputs s))
   \<and> (CycleStarted \<in> fst ` set (fst (pollIteration (answer, cycle) s))
        \<longleftrightarrow> (\<exists>latest. answer = Inr latest \<and> lastCheckedL1Block s < latest))
   \<and> (snd (pollIteration (answer, cycle) s) = Some s' \<longrightarrow>
        lastCheckedL1Block s' =
          (case answer of
             Inl err \<Rightarrow> lastCheckedL1Block s
           | Inr latest \<Rightarrow>
               if lastCheckedL1Block s < latest
                  \<and> queryBlocks cycle (s\<lparr>latestL1Block := latest, isDownloading := True\<rparr>) = Some None
               then latest else lastCheckedL1Block s))"
  using pollLoop_sorted RunAlone_sorted pollIteration_cycle_started pollIteration_checkpoint by blast

subsection \<open>The steps of a thread and the iteration\<close>

text \<open>
  A thread that steps alone through one iteration passes through the states of
  \<open>pollIteration\<close> and no others, and ends where \<open>pollIteration\<close> ends: at the top of the
  loop with the inputs that remain, or blocked inside the cycle.
\<close>

lemma thread_alone_iteration:
  assumes "pollIteration input s = (tr, r)"
  shows "\<exists>k. let run = execute (replicate k (StepThread 0))
                       \<lparr>shared = s, threads = [\<lparr>pc = Querying, pending = input # rest\<rparr>]\<rparr>
             in shared ` set run = insert s (snd ` set tr)
                \<and> last run =
                    (case r of
                       Some s' \<Rightarrow> \<lparr>shared = s', threads = [\<lparr>pc = Querying, pending = rest\<rparr>]\<rparr>
                     | None \<Rightarrow> \<lparr>shared = snd (last tr), threads = [\<lparr>pc = Blocked, pending = input # rest\<rparr>]\<rparr>)"
proof (cases "fst input")
  case (Inl err)
  then show ?thesis using assms
    by (intro exI [of _ "Suc (Suc (Suc 0))"])
       (auto simp: pollIteration_def getLatestL1Block_def perform_def threadStep_def Let_def)
next
  case (Inr latest)
  show ?thesis
  proof (cases "lastCheckedL1Block s < latest")
    case False
    then show ?thesis using assms Inr
      by (intro exI [of _ "Suc (Suc (Suc (Suc 0)))"])
         (auto simp: pollIteration_def getLatestL1Block_def perform_def threadStep_def Let_def)
  next
    case True
    let ?s2 = "s\<lparr>latestL1Block := latest, isDownloading := True\<rparr>"
    show ?thesis
    proof (cases "queryBlocks (snd input) ?s2")
      case None
      then show ?thesis using assms Inr True
        by (intro exI [of _ "Suc (Suc (Suc (Suc 0)))"])
           (auto simp: pollIteration_def getLatestL1Block_def perform_def threadStep_def Let_def)
    next
      case (Some e)
      show ?thesis
      proof (cases e)
        case None
        then show ?thesis using assms Inr True Some
          by (intro exI [of _ "Suc (Suc (Suc (Suc (Suc (Suc 0)))))"])
             (auto simp: pollIteration_def getLatestL1Block_def perform_def threadStep_def Let_def)
      next
        case (Some err)
        then show ?thesis using assms Inr True \<open>queryBlocks (snd input) ?s2 = Some e\<close>
          by (intro exI [of _ "Suc (Suc (Suc (Suc (Suc 0))))"])
             (auto simp: pollIteration_def getLatestL1Block_def perform_def threadStep_def Let_def)
      qed
    qed
  qed
qed

subsection \<open>Two loops lower the checkpoint\<close>

text \<open>
  \<open>Run\<close> returns before the thread it starts has stored \<open>isSyncStarted\<close>, so a second
  call that follows at once passes the test as well, stores its own checkpoint and
  starts a second thread.
\<close>

lemma Run_twice:
  "Run 10 (NewL1Syncer 1000 500) = (NewL1Syncer 1000 500\<lparr>isDownloading := True, lastCheckedL1Block := 10\<rparr>, True)"
  "Run 20 (fst (Run 10 (NewL1Syncer 1000 500)))
     = (NewL1Syncer 1000 500\<lparr>isDownloading := True, lastCheckedL1Block := 20\<rparr>, True)"
  by (simp_all add: Run_def NewL1Syncer_def)

text \<open>
  C3 (defect of the code). Across the iterations of the poll loop \<open>lastCheckedL1Block\<close>
  is meant to be non-decreasing, and \<open>Run\<close> is meant to start the loop once ("if already
  started, don't start another thread"); with one loop the checkpoint never goes down
  (lemma \<open>single_loop_checkpoint_monotone\<close>). The code does not keep this: after
  \<open>Run(10)\<close> and \<open>Run(20)\<close> in a row two loops run. In \<open>racingRuns\<close> the first loop
  passes its test with the latest block 90 against the checkpoint 20, the second loop
  then stores the checkpoint 100 after its cycle, and the first loop then finishes its
  cycle and stores 90: the checkpoint goes from 100 down to 90. The table gives, after
  each action, where the two threads stand, \<open>isSyncStarted\<close>, \<open>latestL1Block\<close> and
  \<open>lastCheckedL1Block\<close>.
\<close>

theorem racingRuns_checkpoint_decreases:
  "map (\<lambda>sys. (map pc (threads sys), isSyncStarted (shared sys), latestL1Block (shared sys),
               lastCheckedL1Block (shared sys)))
     (execute racingRuns \<lparr>shared = NewL1Syncer 1000 500, threads = []\<rparr>) =
     [([Starting], False, 0, 10),
      ([Starting, Starting], False, 0, 20),
      ([Querying, Starting], True, 0, 20),
      ([Querying, Querying], True, 0, 20),
      ([Answered (Inr 90), Querying], True, 0, 20),
      ([Checking 90, Querying], True, 90, 20),
      ([Downloading 90, Querying], True, 90, 20),
      ([Downloading 90, Answered (Inr 100)], True, 90, 20),
      ([Downloading 90, Checking 100], True, 100, 20),
      ([Downloading 90, Downloading 100], True, 100, 20),
      ([Downloading 90, Storing 100], True, 100, 20),
      ([Downloading 90, Ending], True, 100, 100),
      ([Downloading 90, Querying], True, 100, 100),
      ([Storing 90, Querying], True, 100, 100),
      ([Ending, Querying], True, 100, 90),
      ([Querying, Querying], True, 100, 90)]
   \<and> \<not> sorted (map (\<lambda>sys. lastCheckedL1Block (shared sys))
                 (execute racingRuns \<lparr>shared = NewL1Syncer 1000 500, threads = []\<rparr>))"
  by code_simp

subsection \<open>The checkpoint and the latest block\<close>

text \<open>
  C9 (as stated, refuted). One call of \<open>Run\<close> with the initial checkpoint 100, followed
  by a successful latest-block query that answers 50: no cycle is started, and at both
  points after the query \<open>lastCheckedL1Block\<close> is 100 while \<open>latestL1Block\<close> is 50.
\<close>

theorem RunAlone_checkpoint_above_latest:
  "sinceFirstLatest (RunAlone 100 [(Inr 50, \<lambda>_. None)] (NewL1Syncer 1000 500)) =
     [(LatestOk 50, \<lparr>blockRange = 1000, queryDelay = 500, latestL1Block = 50,
          isSyncStarted = True, isDownloading = True, lastCheckedL1Block = 100\<rparr>),
      (IterationEnd, \<lparr>blockRange = 1000, queryDelay = 500, latestL1Block = 50,
          isSyncStarted = True, isDownloading = False, lastCheckedL1Block = 100\<rparr>)]
   \<and> \<not> (100::u64) \<le> 50"
  by (simp add: sinceFirstLatest_def RunAlone_def Run_def pollGoroutine_def NewL1Syncer_def
        pollIteration_def getLatestL1Block_def Let_def)

lemma pollIteration_Inr_inv:
  assumes "pollIteration (Inr latest, cycle) s = (tr, r)" and "lastCheckedL1Block s \<le> latest"
  shows "(\<forall>x \<in> set tr. checkpointBelowLatest (snd x))
         \<and> (\<forall>s'. r = Some s' \<longrightarrow> checkpointBelowLatest s' \<and> latestL1Block s' = latest)"
  using assms
  by (auto simp: pollIteration_def getLatestL1Block_def Let_def checkpointBelowLatest_def
           split: option.splits if_splits)

lemma pollIteration_Inr_hd:
  "pollIteration (Inr latest, cycle) s = (tr, r) \<Longrightarrow> \<exists>s1 tr'. tr = (LatestOk latest, s1) # tr'"
  by (auto simp: pollIteration_def getLatestL1Block_def Let_def split: option.splits if_splits)

lemma pollLoop_inv:
  assumes "checkpointBelowLatest s" and "sorted (latestL1Block s # latestAnswers inputs)"
  shows "\<forall>x \<in> set (pollLoop inputs s). checkpointBelowLatest (snd x)"
  using assms
proof (induction inputs arbitrary: s)
  case Nil
  then show ?case by simp
next
  case (Cons input inputs)
  obtain answer cycle where input: "input = (answer, cycle)" by (cases input)
  show ?case
  proof (cases answer)
    case (Inl err)
    let ?s' = "s\<lparr>isDownloading := False\<rparr>"
    have "checkpointBelowLatest ?s'" "sorted (latestL1Block ?s' # latestAnswers inputs)"
      using Cons.prems input Inl by (simp_all add: checkpointBelowLatest_def)
    from Cons.IH [OF this] show ?thesis
      using Cons.prems(1) input Inl by (simp add: pollIteration_Inl checkpointBelowLatest_def)
  next
    case (Inr latest)
    obtain tr r where it: "pollIteration (Inr latest, cycle) s = (tr, r)"
      by (cases "pollIteration (Inr latest, cycle) s")
    have le: "lastCheckedL1Block s \<le> latest"
      using Cons.prems input Inr by (auto simp: checkpointBelowLatest_def)
    note inv = pollIteration_Inr_inv [OF it le]
    show ?thesis
    proof (cases r)
      case None
      then show ?thesis using it inv input Inr by simp
    next
      case (Some s')
      then have "checkpointBelowLatest s'" "sorted (latestL1Block s' # latestAnswers inputs)"
        using inv Cons.prems(2) input Inr by simp_all
      from Cons.IH [OF this] show ?thesis using it inv input Inr Some by auto
    qed
  qed
qed

lemma pollLoop_since_first:
  assumes "sorted (lastCheckedL1Block s # latestAnswers inputs)"
  shows "\<forall>x \<in> set (sinceFirstLatest (pollLoop inputs s)). checkpointBelowLatest (snd x)"
  using assms
proof (induction inputs arbitrary: s)
  case Nil
  then show ?case by (simp add: sinceFirstLatest_def)
next
  case (Cons input inputs)
  obtain answer cycle where input: "input = (answer, cycle)" by (cases input)
  show ?case
  proof (cases answer)
    case (Inl err)
    let ?s' = "s\<lparr>isDownloading := False\<rparr>"
    have "sorted (lastCheckedL1Block ?s' # latestAnswers inputs)"
      using Cons.prems input Inl by simp
    from Cons.IH [OF this] show ?thesis
      using input Inl by (simp add: pollIteration_Inl sinceFirstLatest_def)
  next
    case (Inr latest)
    obtain tr r where it: "pollIteration (Inr latest, cycle) s = (tr, r)"
      by (cases "pollIteration (Inr latest, cycle) s")
    have le: "lastCheckedL1Block s \<le> latest"
      using Cons.prems input Inr by simp
    note inv = pollIteration_Inr_inv [OF it le]
    from pollIteration_Inr_hd [OF it] obtain s1 tr' where tr: "tr = (LatestOk latest, s1) # tr'"
      by blast
    have whole: "sinceFirstLatest (pollLoop (input # inputs) s) = pollLoop (input # inputs) s"
      using it input Inr tr by (cases r) (simp_all add: sinceFirstLatest_def)
    show ?thesis
    proof (cases r)
      case None
      then show ?thesis unfolding whole using it inv input Inr by simp
    next
      case (Some s')
      then have "checkpointBelowLatest s'" "sorted (latestL1Block s' # latestAnswers inputs)"
        using inv Cons.prems input Inr by simp_all
      from pollLoop_inv [OF this] show ?thesis
        unfolding whole using it inv input Inr Some by auto
    qed
  qed
qed

text \<open>
  What two loops do is outside the amended statement below. Its two conditions alone do
  not give the invariant then: in \<open>racingLatest\<close> both checkpoints are below the answers
  90 and 100, which come in this order, and at the end \<open>lastCheckedL1Block\<close> is 100
  while \<open>latestL1Block\<close> is 90.
\<close>

lemma racingLatest_checkpoint_above_latest:
  "map (\<lambda>sys. (map pc (threads sys), latestL1Block (shared sys), lastCheckedL1Block (shared sys)))
     (execute racingLatest \<lparr>shared = NewL1Syncer 1000 500, threads = []\<rparr>) =
     [([Starting], 0, 10),
      ([Starting, Starting], 0, 20),
      ([Querying, Starting], 0, 20),
      ([Querying, Querying], 0, 20),
      ([Answered (Inr 90), Querying], 0, 20),
      ([Answered (Inr 90), Answered (Inr 100)], 0, 20),
      ([Answered (Inr 90), Checking 100], 100, 20),
      ([Checking 90, Checking 100], 90, 20),
      ([Checking 90, Downloading 100], 90, 20),
      ([Checking 90, Storing 100], 90, 20),
      ([Checking 90, Ending], 90, 100)]"
  by code_simp

text \<open>
  C9 (amended). With one call of \<open>Run\<close> and its loop running alone: when the initial
  checkpoint is not above the first latest block that a query returns, and the latest
  blocks that the queries return never decrease, then at every point from the first
  successful latest-block query on \<open>lastCheckedL1Block \<le> latestL1Block\<close>.
\<close>

theorem RunAlone_checkpoint_le_latest:
  assumes "sorted (lastCheckedBlock # latestAnswers inputs)"
  shows "\<forall>x \<in> set (sinceFirstLatest (RunAlone lastCheckedBlock inputs s)).
           lastCheckedL1Block (snd x) \<le> latestL1Block (snd x)"
proof (cases "isSyncStarted s")
  case True
  then show ?thesis by (simp add: RunAlone_def Run_def sinceFirstLatest_def)
next
  case False
  let ?s = "s\<lparr>isDownloading := True, lastCheckedL1Block := lastCheckedBlock, isSyncStarted := True\<rparr>"
  have "sinceFirstLatest (RunAlone lastCheckedBlock inputs s) = sinceFirstLatest (pollLoop inputs ?s)"
    using False by (simp add: RunAlone_def Run_def pollGoroutine_def sinceFirstLatest_def Let_def)
  moreover have "sorted (lastCheckedL1Block ?s # latestAnswers inputs)"
    using assms by simp
  ultimately show ?thesis
    using pollLoop_since_first [of ?s inputs] by (simp add: checkpointBelowLatest_def)
qed

theorem RunAlone_checkpoint_le_latest_witness:
  "sorted (10 # latestAnswers [(Inl (RpcError 1), \<lambda>_. None), (Inr 50, \<lambda>_. None), (Inr 50, \<lambda>_. None),
       (Inr 70, \<lambda>_. Some (EndpointError (RpcError 2))), (Inr 80, \<lambda>_. None)])
   \<and> length (sinceFirstLatest (RunAlone 10 [(Inl (RpcError 1), \<lambda>_. None), (Inr 50, \<lambda>_. None), (Inr 50, \<lambda>_. None),
       (Inr 70, \<lambda>_. Some (EndpointError (RpcError 2))), (Inr 80, \<lambda>_. None)] (NewL1Syncer 1000 500))) = 13
   \<and> list_all (\<lambda>x. lastCheckedL1Block (snd x) \<le> latestL1Block (snd x))
        (sinceFirstLatest (RunAlone 10 [(Inl (RpcError 1), \<lambda>_. None), (Inr 50, \<lambda>_. None), (Inr 50, \<lambda>_. None),
       (Inr 70, \<lambda>_. Some (EndpointError (RpcError 2))), (Inr 80, \<lambda>_. None)] (NewL1Syncer 1000 500)))"
  using RunAlone_checkpoint_le_latest [of 10 "[(Inl (RpcError 1), \<lambda>_. None), (Inr 50, \<lambda>_. None), (Inr 50, \<lambda>_. None),
       (Inr 70, \<lambda>_. Some (EndpointError (RpcError 2))), (Inr 80, \<lambda>_. None)]" "NewL1Syncer 1000 500"]
  by (simp add: sinceFirstLatest_def RunAlone_def Run_def pollGoroutine_def NewL1Syncer_def
        pollIteration_def getLatestL1Block_def queryBlocks_def planFetches_def planLoop.simps Let_def)

section \<open>The backward resolver: results\<close>

subsection \<open>The steps of the loop\<close>

lemma resolveLoop_return:
  "resolveStep callContract addr rollupId st = Return r evs \<Longrightarrow>
     resolveLoop callContract addr rollupId st = Some (r, evs)"
  by (subst resolveLoop.simps) simp

lemma resolveLoop_continue:
  "resolveStep callContract addr rollupId st = Continue st' \<Longrightarrow>
     resolveLoop callContract addr rollupId st = resolveLoop callContract addr rollupId st'"
  by (subst resolveLoop.simps) simp

lemma resolveStep_nonzero:
  "loopCount st \<noteq> 10 \<Longrightarrow>
   callGetRollupSequencedBatches callContract (calls st) addr rollupId (batchNum st) = Inr (h, previousBatch) \<Longrightarrow>
   h \<noteq> ZeroHash \<Longrightarrow>
   resolveStep callContract addr rollupId st = Return (h, None) (events st @ [ContractCalled (batchNum st)])"
  by (simp add: resolveStep_def Let_def)

lemma resolveStep_zero_decrement:
  "loopCount st \<noteq> 10 \<Longrightarrow>
   callGetRollupSequencedBatches callContract (calls st) addr rollupId (batchNum st) = Inr (ZeroHash, 0) \<Longrightarrow>
   batchNum st > 0 \<Longrightarrow>
   resolveStep callContract addr rollupId st =
     Continue (st\<lparr>batchNum := batchNum st - 1, calls := calls st + 1,
                  events := events st @ [ContractCalled (batchNum st)]\<rparr>)"
  by (simp add: resolveStep_def Let_def)

lemma resolveStep_zero_follow:
  "loopCount st \<noteq> 10 \<Longrightarrow>
   callGetRollupSequencedBatches callContract (calls st) addr rollupId (batchNum st) = Inr (ZeroHash, previousBatch) \<Longrightarrow>
   \<not> (previousBatch = 0 \<and> batchNum st > 0) \<Longrightarrow>
   resolveStep callContract addr rollupId st =
     Continue (st\<lparr>batchNum := previousBatch, loopCount := loopCount st + 1, calls := calls st + 1,
                  events := events st @ [ContractCalled (batchNum st)]\<rparr>)"
  by (auto simp: resolveStep_def Let_def)

lemma resolveStep_exhausted:
  "loopCount st = 10 \<Longrightarrow>
   resolveStep callContract addr rollupId st = Return (ZeroHash, Some errorTooManyRetries) (events st)"
  by (simp add: resolveStep_def)


lemma callGet_decode:
  "callContract n addr (callData rollupId b) = Inr resp \<Longrightarrow>
   callGetRollupSequencedBatches callContract n addr rollupId b =
     (if length resp < 32 then Inl errorShortResponseLT32
      else if length resp < 96 then Inl errorShortResponseLT96
      else Inr (take 32 resp, BigEndianUint64 (take 8 (drop 88 resp))))"
  by (simp add: callGetRollupSequencedBatches_def Let_def)

lemma resolveStep_short:
  "loopCount st \<noteq> 10 \<Longrightarrow>
   callGetRollupSequencedBatches callContract (calls st) addr rollupId (batchNum st) = Inl err \<Longrightarrow>
   err = errorShortResponseLT32 \<or> err = errorShortResponseLT96 \<Longrightarrow>
   batchNum st > 0 \<Longrightarrow>
   resolveStep callContract addr rollupId st =
     Continue (st\<lparr>batchNum := batchNum st - 1, calls := calls st + 1,
                  events := events st @ [ContractCalled (batchNum st)]\<rparr>)"
  by (auto simp: resolveStep_def Let_def)

subsection \<open>The answers of the example contracts\<close>

lemma callData_neq:
  "callData 7 0 \<noteq> callData 7 8" "callData 7 5 \<noteq> callData 7 0" "callData 7 5 \<noteq> callData 7 8"
  "callData 7 8 \<noteq> callData 7 0"
  by (simp_all add: callData_def bigEndianBytes_def)

lemma closed_decodes:
  "BigEndianUint64 (replicate 8 0) = 0"
  "BigEndianUint64 [0, 0, 0, 0, 0, 0, 0, 6] = 6"
  "replicate 31 0 @ [1::byte] \<noteq> ZeroHash"
  "replicate 31 0 @ [9::byte] \<noteq> ZeroHash"
  by code_simp+

lemma walkBack_answers:
  "callGetRollupSequencedBatches walkBackContract n addr 7 0 = Inr (replicate 31 0 @ [1], 0)"
  "callGetRollupSequencedBatches walkBackContract n addr 7 5 = Inr (ZeroHash, 0)"
  "callGetRollupSequencedBatches walkBackContract n addr 7 8 = Inr (ZeroHash, 6)"
  by (simp_all add: callGetRollupSequencedBatches_def walkBackContract_def ZeroHash_def
        Let_def callData_neq closed_decodes)


lemma callData_neq2:
  "callData 7 2 \<noteq> callData 7 3" "callData 7 2 \<noteq> callData 7 4" "callData 7 3 \<noteq> callData 7 4"
  by (simp_all add: callData_def bigEndianBytes_def)

lemma walkBack_answers2:
  "callGetRollupSequencedBatches walkBackContract n addr 7 1 = Inr (ZeroHash, 0)"
  "callGetRollupSequencedBatches walkBackContract n addr 7 2 = Inr (ZeroHash, 0)"
  "callGetRollupSequencedBatches walkBackContract n addr 7 3 = Inr (ZeroHash, 0)"
  "callGetRollupSequencedBatches walkBackContract n addr 7 4 = Inr (ZeroHash, 0)"
  by (simp_all add: callGetRollupSequencedBatches_def walkBackContract_def ZeroHash_def
        Let_def closed_decodes callData_def bigEndianBytes_def)

subsection \<open>The rules of the backward walk\<close>

text \<open>
  C1. \<open>GetOldAccInputHash\<close> is its loop entered with attempt counter 0 and the starting
  batch number, and at every state of the loop, for every function of endpoint answers:
  a call that returns a non-zero hash makes the function return that hash at once; a call
  that returns the zero hash with previous batch number 0 while the batch number is
  positive continues with the batch number decremented and the attempt counter unchanged;
  a call that returns the zero hash otherwise continues at the previous batch number with
  the attempt counter incremented; and with the attempt counter at 10 the function
  returns the "too many retries" error, with the zero hash beside it.
\<close>

theorem GetOldAccInputHash_rules:
  "GetOldAccInputHash callContract addr rollupId batchNum' =
     resolveLoop callContract addr rollupId \<lparr>loopCount = 0, batchNum = batchNum', calls = 0, events = []\<rparr>
   \<and> (loopCount sta \<noteq> 10
        \<and> callGetRollupSequencedBatches callContract (calls sta) addr rollupId (batchNum sta) = Inr (h, previousBatch)
        \<and> h \<noteq> ZeroHash
      \<longrightarrow> resolveLoop callContract addr rollupId sta
            = Some ((h, None), events sta @ [ContractCalled (batchNum sta)]))
   \<and> (loopCount stb \<noteq> 10
        \<and> callGetRollupSequencedBatches callContract (calls stb) addr rollupId (batchNum stb) = Inr (ZeroHash, 0)
        \<and> batchNum stb > 0
      \<longrightarrow> resolveLoop callContract addr rollupId stb
            = resolveLoop callContract addr rollupId
                (stb\<lparr>batchNum := batchNum stb - 1, calls := calls stb + 1,
                     events := events stb @ [ContractCalled (batchNum stb)]\<rparr>))
   \<and> (loopCount stc \<noteq> 10
        \<and> callGetRollupSequencedBatches callContract (calls stc) addr rollupId (batchNum stc) = Inr (ZeroHash, previousBatch')
        \<and> \<not> (previousBatch' = 0 \<and> batchNum stc > 0)
      \<longrightarrow> resolveLoop callContract addr rollupId stc
            = resolveLoop callContract addr rollupId
                (stc\<lparr>batchNum := previousBatch', loopCount := loopCount stc + 1, calls := calls stc + 1,
                     events := events stc @ [ContractCalled (batchNum stc)]\<rparr>))
   \<and> (loopCount std = 10
      \<longrightarrow> resolveLoop callContract addr rollupId std
            = Some ((ZeroHash, Some errorTooManyRetries), events std))"
  using resolveLoop_return [OF resolveStep_nonzero] resolveLoop_continue [OF resolveStep_zero_decrement]
    resolveLoop_continue [OF resolveStep_zero_follow] resolveLoop_return [OF resolveStep_exhausted]
  by (simp add: GetOldAccInputHash_def)


theorem GetOldAccInputHash_rules_witness:
  "resolveLoop walkBackContract 0 7 \<lparr>loopCount = 3, batchNum = 0, calls = 4, events = []\<rparr>
     = Some ((replicate 31 0 @ [1], None), [ContractCalled 0])
   \<and> resolveLoop walkBackContract 0 7 \<lparr>loopCount = 3, batchNum = 5, calls = 4, events = []\<rparr>
     = resolveLoop walkBackContract 0 7 \<lparr>loopCount = 3, batchNum = 4, calls = 5, events = [ContractCalled 5]\<rparr>
   \<and> resolveLoop walkBackContract 0 7 \<lparr>loopCount = 3, batchNum = 8, calls = 4, events = []\<rparr>
     = resolveLoop walkBackContract 0 7 \<lparr>loopCount = 4, batchNum = 6, calls = 5, events = [ContractCalled 8]\<rparr>
   \<and> resolveLoop walkBackContract 0 7 \<lparr>loopCount = 10, batchNum = 8, calls = 4, events = []\<rparr>
     = Some ((ZeroHash, Some errorTooManyRetries), [])"
  using GetOldAccInputHash_rules [where callContract = walkBackContract and addr = 0 and rollupId = 7
      and sta = "\<lparr>loopCount = 3, batchNum = 0, calls = 4, events = []\<rparr>"
      and h = "replicate 31 0 @ [1]" and previousBatch = 0
      and stb = "\<lparr>loopCount = 3, batchNum = 5, calls = 4, events = []\<rparr>"
      and stc = "\<lparr>loopCount = 3, batchNum = 8, calls = 4, events = []\<rparr>" and previousBatch' = 6
      and std = "\<lparr>loopCount = 10, batchNum = 8, calls = 4, events = []\<rparr>"]
  by (simp add: walkBack_answers closed_decodes)

subsection \<open>Short responses\<close>

lemma short_example:
  assumes s: "\<forall>n. callContract n addr (callData rollupId 3) = Inr short" and ls: "length short = 10"
    and v: "\<forall>n. callContract n addr (callData rollupId 2) = Inr valid" and lv: "length valid = 96"
    and nz: "take 32 valid \<noteq> ZeroHash"
  shows "GetOldAccInputHash callContract addr rollupId 3
           = Some ((take 32 valid, None), [ContractCalled 3, ContractCalled 2])"
proof -
  let ?st0 = "\<lparr>loopCount = 0, batchNum = 3, calls = 0, events = []\<rparr>"
  let ?st1 = "\<lparr>loopCount = 0, batchNum = 2, calls = 1, events = [ContractCalled 3]\<rparr>"
  have c3: "callGetRollupSequencedBatches callContract 0 addr rollupId 3 = Inl errorShortResponseLT32"
    using callGet_decode [of callContract 0 addr rollupId 3 short] s ls by simp
  have c2: "callGetRollupSequencedBatches callContract 1 addr rollupId 2
              = Inr (take 32 valid, BigEndianUint64 (take 8 (drop 88 valid)))"
    using callGet_decode [of callContract 1 addr rollupId 2 valid] v lv by simp
  have "resolveStep callContract addr rollupId ?st0 = Continue ?st1"
    using resolveStep_short [of ?st0 callContract addr rollupId errorShortResponseLT32] c3 by simp
  moreover have "resolveStep callContract addr rollupId ?st1
                   = Return (take 32 valid, None) [ContractCalled 3, ContractCalled 2]"
    using resolveStep_nonzero [of ?st1 callContract addr rollupId "take 32 valid"] c2 nz by simp
  ultimately show ?thesis
    by (simp add: GetOldAccInputHash_def resolveLoop_continue resolveLoop_return)
qed

text \<open>
  C5. A response shorter than 32 bytes and a response of 32 to 95 bytes give the two
  distinguished errors. When a call gives either of them and the batch number is
  positive, the loop continues with the batch number decremented by 1, the attempt
  counter unchanged and no sleep (the only new event is the call). In particular, with
  an endpoint that answers 10 bytes for batch 3 and 96 bytes with a non-zero hash for
  batch 2, the resolution started at batch 3 returns the hash of batch 2 after exactly
  two calls.
\<close>

theorem GetOldAccInputHash_short_response:
  "(callContract n addr (callData rollupId b) = Inr respA \<and> length respA < 32
      \<longrightarrow> callGetRollupSequencedBatches callContract n addr rollupId b = Inl errorShortResponseLT32)
   \<and> (callContract n' addr (callData rollupId b') = Inr respB \<and> 32 \<le> length respB \<and> length respB < 96
      \<longrightarrow> callGetRollupSequencedBatches callContract n' addr rollupId b' = Inl errorShortResponseLT96)
   \<and> (loopCount st \<noteq> 10
        \<and> callGetRollupSequencedBatches callContract (calls st) addr rollupId (batchNum st) = Inl err
        \<and> (err = errorShortResponseLT32 \<or> err = errorShortResponseLT96)
        \<and> batchNum st > 0
      \<longrightarrow> resolveStep callContract addr rollupId st
            = Continue (st\<lparr>batchNum := batchNum st - 1, calls := calls st + 1,
                           events := events st @ [ContractCalled (batchNum st)]\<rparr>)
          \<and> resolveLoop callContract addr rollupId st
            = resolveLoop callContract addr rollupId
                (st\<lparr>batchNum := batchNum st - 1, calls := calls st + 1,
                    events := events st @ [ContractCalled (batchNum st)]\<rparr>))
   \<and> ((\<forall>k. callContract k addr (callData rollupId 3) = Inr short) \<and> length short = 10
        \<and> (\<forall>k. callContract k addr (callData rollupId 2) = Inr valid) \<and> length valid = 96
        \<and> take 32 valid \<noteq> ZeroHash
      \<longrightarrow> GetOldAccInputHash callContract addr rollupId 3
            = Some ((take 32 valid, None), [ContractCalled 3, ContractCalled 2]))"
proof (intro conjI impI)
  assume "callContract n addr (callData rollupId b) = Inr respA \<and> length respA < 32"
  then show "callGetRollupSequencedBatches callContract n addr rollupId b = Inl errorShortResponseLT32"
    using callGet_decode [of callContract n addr rollupId b respA] by simp
next
  assume "callContract n' addr (callData rollupId b') = Inr respB \<and> 32 \<le> length respB \<and> length respB < 96"
  then show "callGetRollupSequencedBatches callContract n' addr rollupId b' = Inl errorShortResponseLT96"
    using callGet_decode [of callContract n' addr rollupId b' respB] by simp
next
  assume a: "loopCount st \<noteq> 10
        \<and> callGetRollupSequencedBatches callContract (calls st) addr rollupId (batchNum st) = Inl err
        \<and> (err = errorShortResponseLT32 \<or> err = errorShortResponseLT96)
        \<and> batchNum st > 0"
  then show step: "resolveStep callContract addr rollupId st
            = Continue (st\<lparr>batchNum := batchNum st - 1, calls := calls st + 1,
                           events := events st @ [ContractCalled (batchNum st)]\<rparr>)"
    using resolveStep_short [of st callContract addr rollupId err] by blast
  show "resolveLoop callContract addr rollupId st
            = resolveLoop callContract addr rollupId
                (st\<lparr>batchNum := batchNum st - 1, calls := calls st + 1,
                    events := events st @ [ContractCalled (batchNum st)]\<rparr>)"
    using step by (rule resolveLoop_continue)
next
  assume "(\<forall>k. callContract k addr (callData rollupId 3) = Inr short) \<and> length short = 10
        \<and> (\<forall>k. callContract k addr (callData rollupId 2) = Inr valid) \<and> length valid = 96
        \<and> take 32 valid \<noteq> ZeroHash"
  then show "GetOldAccInputHash callContract addr rollupId 3
            = Some ((take 32 valid, None), [ContractCalled 3, ContractCalled 2])"
    using short_example [of callContract addr rollupId short valid] by blast
qed


theorem GetOldAccInputHash_short_response_witness:
  "callGetRollupSequencedBatches shortAnswerContract 0 0 7 3 = Inl errorShortResponseLT32
   \<and> callGetRollupSequencedBatches shortAnswerContract 0 0 7 4 = Inl errorShortResponseLT96
   \<and> resolveStep shortAnswerContract 0 7 \<lparr>loopCount = 0, batchNum = 3, calls = 0, events = []\<rparr>
       = Continue \<lparr>loopCount = 0, batchNum = 2, calls = 1, events = [ContractCalled 3]\<rparr>
   \<and> GetOldAccInputHash shortAnswerContract 0 7 3
       = Some ((replicate 31 0 @ [9], None), [ContractCalled 3, ContractCalled 2])"
proof -
  have a4: "shortAnswerContract 0 0 (callData 7 4) = Inr (replicate 40 0)"
    by (simp add: shortAnswerContract_def)
  have a3: "\<forall>k. shortAnswerContract k 0 (callData 7 3) = Inr (replicate 10 0)"
    by (simp add: shortAnswerContract_def callData_neq2)
  have a2: "\<forall>k. shortAnswerContract k 0 (callData 7 2) = Inr (replicate 31 0 @ [9] @ replicate 64 0)"
    by (simp add: shortAnswerContract_def callData_neq2)
  have c3: "callGetRollupSequencedBatches shortAnswerContract 0 0 7 3 = Inl errorShortResponseLT32"
    using a3 by (simp add: callGetRollupSequencedBatches_def)
  from GetOldAccInputHash_short_response
    [where callContract = shortAnswerContract and addr = 0 and rollupId = 7 and n = 0 and b = 3
       and respA = "replicate 10 0" and n' = 0 and b' = 4 and respB = "replicate 40 0"
       and st = "\<lparr>loopCount = 0, batchNum = 3, calls = 0, events = []\<rparr>"
       and err = errorShortResponseLT32
       and short = "replicate 10 0" and valid = "replicate 31 0 @ [9] @ replicate 64 0"]
  show ?thesis using a4 a3 a2 c3 by (simp add: closed_decodes)
qed

subsection \<open>Termination\<close>

lemma word_pred_less: "(0::u64) < b \<Longrightarrow> unat (b - 1) < unat b"
  by (simp add: measure_unat word_neq_0_conv)

lemma resolveStep_decreases:
  assumes "loopCount st \<le> 10" and "resolveStep callContract addr rollupId st = Continue st'"
  shows "(resolverMeasure st', resolverMeasure st) \<in> less_than <*lex*> less_than \<and> loopCount st' \<le> 10"
proof -
  have lt: "loopCount st < 10"
    using assms by (cases "loopCount st = 10") (simp_all add: resolveStep_def)
  from assms(2) lt have
    "(loopCount st' = loopCount st \<and> 0 < batchNum st \<and> batchNum st' = batchNum st - 1)
     \<or> loopCount st' = loopCount st + 1"
    by (auto simp: resolveStep_def Let_def split: sum.splits if_splits prod.splits)
  then show ?thesis
  proof
    assume "loopCount st' = loopCount st \<and> 0 < batchNum st \<and> batchNum st' = batchNum st - 1"
    then show ?thesis using lt word_pred_less [of "batchNum st"] by (simp add: resolverMeasure_def)
  next
    assume "loopCount st' = loopCount st + 1"
    then show ?thesis using lt by (simp add: resolverMeasure_def)
  qed
qed

lemma resolveLoop_returns:
  assumes "loopCount st \<le> 10"
  shows "\<exists>r. resolveLoop callContract addr rollupId st = Some r"
  using assms
proof (induction st rule: wf_induct_rule [OF wf_inv_image [OF wf_lex_prod [OF wf_less_than wf_less_than], of resolverMeasure]])
  case (1 st)
  show ?case
  proof (cases "resolveStep callContract addr rollupId st")
    case (Return r evs)
    then show ?thesis by (subst resolveLoop.simps) simp
  next
    case (Continue st')
    from resolveStep_decreases [OF "1.prems" Continue]
    have "\<exists>r. resolveLoop callContract addr rollupId st' = Some r"
      by (intro "1.IH") (simp_all add: in_inv_image)
    then show ?thesis using Continue by (subst resolveLoop.simps) simp
  qed
qed


lemma walk_example:
  assumes z: "\<forall>b \<in> {1, 2, 3, 4, 5}. \<forall>n. callGetRollupSequencedBatches callContract n addr rollupId b = Inr (ZeroHash, 0)"
    and nz: "\<forall>n. callGetRollupSequencedBatches callContract n addr rollupId 0 = Inr (h, previousBatch)"
      "h \<noteq> ZeroHash"
  shows "GetOldAccInputHash callContract addr rollupId 5
           = Some ((h, None), [ContractCalled 5, ContractCalled 4, ContractCalled 3, ContractCalled 2,
                               ContractCalled 1, ContractCalled 0])"
proof -
  let ?st = "\<lambda>b n evs. \<lparr>loopCount = 0, batchNum = b, calls = n, events = evs\<rparr>"
  have down: "resolveLoop callContract addr rollupId (?st b n evs)
                = resolveLoop callContract addr rollupId (?st (b - 1) (n + 1) (evs @ [ContractCalled b]))"
    if "b \<in> {1, 2, 3, 4, 5}" for b n evs
  proof -
    have "callGetRollupSequencedBatches callContract n addr rollupId b = Inr (ZeroHash, 0)"
      using z that by blast
    moreover have "0 < b" using that by auto
    ultimately have "resolveStep callContract addr rollupId (?st b n evs)
                       = Continue (?st (b - 1) (n + 1) (evs @ [ContractCalled b]))"
      using resolveStep_zero_decrement [of "?st b n evs" callContract addr rollupId] by simp
    then show ?thesis by (rule resolveLoop_continue)
  qed
  have stop: "resolveLoop callContract addr rollupId (?st 0 n evs) = Some ((h, None), evs @ [ContractCalled 0])"
    for n evs
    using resolveLoop_return [OF resolveStep_nonzero [of "?st 0 n evs" callContract addr rollupId h previousBatch]] nz
    by simp
  show ?thesis
    by (simp add: GetOldAccInputHash_def down stop)
qed

text \<open>
  C6. \<open>GetOldAccInputHash\<close> returns for every function of endpoint answers and every
  starting batch number. Its loop repeats the step; a step from a state with at most 10
  attempts either returns or continues in a state that is strictly smaller in the
  lexicographic order on (10 - attempt counter, batch number). In particular, with a
  contract that has the zero hash and previous batch number 0 at batches 5, 4, 3, 2, 1
  and a non-zero hash at batch 0, the resolution started at batch 5 returns the hash of
  batch 0 after the calls for 5, 4, 3, 2, 1, 0 and no sleep.
\<close>

theorem GetOldAccInputHash_terminates:
  "(\<exists>r. GetOldAccInputHash callContract addr rollupId batchNum' = Some r)
   \<and> resolveLoop callContract addr rollupId st
       = (case resolveStep callContract addr rollupId st of
            Return r evs \<Rightarrow> Some (r, evs)
          | Continue st' \<Rightarrow> resolveLoop callContract addr rollupId st')
   \<and> (loopCount st \<le> 10 \<and> resolveStep callContract addr rollupId st = Continue st'
      \<longrightarrow> (resolverMeasure st', resolverMeasure st) \<in> less_than <*lex*> less_than \<and> loopCount st' \<le> 10)
   \<and> ((\<forall>b \<in> {1, 2, 3, 4, 5}. \<forall>n. callGetRollupSequencedBatches callContract n addr rollupId b = Inr (ZeroHash, 0))
        \<and> (\<forall>n. callGetRollupSequencedBatches callContract n addr rollupId 0 = Inr (h, previousBatch))
        \<and> h \<noteq> ZeroHash
      \<longrightarrow> GetOldAccInputHash callContract addr rollupId 5
            = Some ((h, None), [ContractCalled 5, ContractCalled 4, ContractCalled 3, ContractCalled 2,
                                ContractCalled 1, ContractCalled 0]))"
proof (intro conjI impI)
  show "\<exists>r. GetOldAccInputHash callContract addr rollupId batchNum' = Some r"
    unfolding GetOldAccInputHash_def by (rule resolveLoop_returns) simp
next
  show "resolveLoop callContract addr rollupId st
       = (case resolveStep callContract addr rollupId st of
            Return r evs \<Rightarrow> Some (r, evs)
          | Continue st' \<Rightarrow> resolveLoop callContract addr rollupId st')"
    by (rule resolveLoop.simps)
next
  assume a: "loopCount st \<le> 10 \<and> resolveStep callContract addr rollupId st = Continue st'"
  then show "(resolverMeasure st', resolverMeasure st) \<in> less_than <*lex*> less_than"
    and "loopCount st' \<le> 10"
    using resolveStep_decreases [of st callContract addr rollupId st'] by simp_all
next
  assume "(\<forall>b \<in> {1, 2, 3, 4, 5}. \<forall>n. callGetRollupSequencedBatches callContract n addr rollupId b = Inr (ZeroHash, 0))
        \<and> (\<forall>n. callGetRollupSequencedBatches callContract n addr rollupId 0 = Inr (h, previousBatch))
        \<and> h \<noteq> ZeroHash"
  then show "GetOldAccInputHash callContract addr rollupId 5
            = Some ((h, None), [ContractCalled 5, ContractCalled 4, ContractCalled 3, ContractCalled 2,
                                ContractCalled 1, ContractCalled 0])"
    using walk_example [of callContract addr rollupId h previousBatch] by blast
qed


theorem GetOldAccInputHash_terminates_witness:
  "(\<exists>r. GetOldAccInputHash walkBackContract 0 7 5 = Some r)
   \<and> resolveStep walkBackContract 0 7 \<lparr>loopCount = 0, batchNum = 5, calls = 0, events = []\<rparr>
       = Continue \<lparr>loopCount = 0, batchNum = 4, calls = 1, events = [ContractCalled 5]\<rparr>
   \<and> (resolverMeasure \<lparr>loopCount = 0, batchNum = 4, calls = 1, events = [ContractCalled 5]\<rparr>,
       resolverMeasure \<lparr>loopCount = 0, batchNum = 5, calls = 0, events = []\<rparr>) \<in> less_than <*lex*> less_than
   \<and> GetOldAccInputHash walkBackContract 0 7 5
       = Some ((replicate 31 0 @ [1], None), [ContractCalled 5, ContractCalled 4, ContractCalled 3,
               ContractCalled 2, ContractCalled 1, ContractCalled 0])"
proof -
  have step: "resolveStep walkBackContract 0 7 \<lparr>loopCount = 0, batchNum = 5, calls = 0, events = []\<rparr>
       = Continue \<lparr>loopCount = 0, batchNum = 4, calls = 1, events = [ContractCalled 5]\<rparr>"
    using resolveStep_zero_decrement [of "\<lparr>loopCount = 0, batchNum = 5, calls = 0, events = []\<rparr>" walkBackContract 0 7]
    by (simp add: walkBack_answers)
  from GetOldAccInputHash_terminates
    [where callContract = walkBackContract and addr = 0 and rollupId = 7 and batchNum' = 5
       and st = "\<lparr>loopCount = 0, batchNum = 5, calls = 0, events = []\<rparr>"
       and st' = "\<lparr>loopCount = 0, batchNum = 4, calls = 1, events = [ContractCalled 5]\<rparr>"
       and h = "replicate 31 0 @ [1]" and previousBatch = 0]
  show ?thesis using step by (simp add: walkBack_answers walkBack_answers2 closed_decodes)
qed


subsection \<open>Successful results\<close>

lemma resolveLoop_result_aux:
  "resolveLoop callContract addr rollupId st = Some r \<Longrightarrow>
     (snd (fst r) = None \<and> fst (fst r) \<noteq> ZeroHash)
       \<or> (fst (fst r) = ZeroHash \<and> snd (fst r) = Some errorTooManyRetries)"
  by (erule resolveLoop.raw_induct
        [where P = "\<lambda>_ _ _ _ r. (snd (fst r) = None \<and> fst (fst r) \<noteq> ZeroHash)
                       \<or> (fst (fst r) = ZeroHash \<and> snd (fst r) = Some errorTooManyRetries)",
          rotated])
     (auto simp: resolveStep_def Let_def split: resolverStep.splits sum.splits if_splits prod.splits)

lemma resolveLoop_result:
  "resolveLoop callContract addr rollupId st = Some ((h, err), evs) \<Longrightarrow>
     (err = None \<and> h \<noteq> ZeroHash) \<or> (h = ZeroHash \<and> err = Some errorTooManyRetries)"
  using resolveLoop_result_aux [of callContract addr rollupId st "((h, err), evs)"] by simp

lemma resolveLoop_hash_length:
  "resolveLoop callContract addr rollupId st = Some r \<Longrightarrow> length (fst (fst r)) = 32"
  by (erule resolveLoop.raw_induct [where P = "\<lambda>_ _ _ _ r. length (fst (fst r)) = 32", rotated])
     (auto simp: resolveStep_def callGetRollupSequencedBatches_def ZeroHash_def Let_def
           split: resolverStep.splits sum.splits if_splits prod.splits)

text \<open>
  C10. \<open>GetOldAccInputHash\<close> returns, and whatever it returns is a hash of 32 bytes such
  that: without an error the hash is not the zero hash; the zero hash comes only with
  the "too many retries" error; and an error is always that error, beside the zero hash.
\<close>

theorem GetOldAccInputHash_success_nonzero:
  "(\<exists>r. GetOldAccInputHash callContract addr rollupId batchNum' = Some r)
   \<and> (GetOldAccInputHash callContract addr rollupId batchNum' = Some ((h, err), evs)
      \<longrightarrow> length h = 32
          \<and> (err = None \<longrightarrow> h \<noteq> ZeroHash)
          \<and> (h = ZeroHash \<longrightarrow> err = Some errorTooManyRetries)
          \<and> (err \<noteq> None \<longrightarrow> h = ZeroHash \<and> err = Some errorTooManyRetries))"
proof (intro conjI impI)
  show "\<exists>r. GetOldAccInputHash callContract addr rollupId batchNum' = Some r"
    unfolding GetOldAccInputHash_def by (rule resolveLoop_returns) simp
next
  assume r: "GetOldAccInputHash callContract addr rollupId batchNum' = Some ((h, err), evs)"
  let ?st = "\<lparr>loopCount = 0, batchNum = batchNum', calls = 0, events = []\<rparr>"
  have l: "resolveLoop callContract addr rollupId ?st = Some ((h, err), evs)"
    using r by (simp add: GetOldAccInputHash_def)
  note res = resolveLoop_result [OF l]
  show "length h = 32" using resolveLoop_hash_length [OF l] by simp
  show "h \<noteq> ZeroHash" if "err = None" using res that by auto
  show "err = Some errorTooManyRetries" if "h = ZeroHash" using res that by auto
  show "h = ZeroHash" if "err \<noteq> None" using res that by auto
  show "err = Some errorTooManyRetries" if "err \<noteq> None" using res that by auto
qed

theorem GetOldAccInputHash_success_nonzero_witness:
  "GetOldAccInputHash walkBackContract 0 7 0 = Some ((replicate 31 0 @ [1], None), [ContractCalled 0])
   \<and> length (replicate 31 0 @ [1::byte]) = 32
   \<and> replicate 31 0 @ [1::byte] \<noteq> ZeroHash
   \<and> GetOldAccInputHash (\<lambda>n addr data. Inl (RpcError n)) 0 7 0
       = Some ((ZeroHash, Some errorTooManyRetries),
           [ContractCalled 0, ResolverSlept 0, ContractCalled 0, ResolverSlept 2,
            ContractCalled 0, ResolverSlept 4, ContractCalled 0, ResolverSlept 6,
            ContractCalled 0, ResolverSlept 8, ContractCalled 0, ResolverSlept 10,
            ContractCalled 0, ResolverSlept 12, ContractCalled 0, ResolverSlept 14,
            ContractCalled 0, ResolverSlept 16, ContractCalled 0, ResolverSlept 18])"
proof -
  have ok: "GetOldAccInputHash walkBackContract 0 7 0
              = Some ((replicate 31 0 @ [1], None), [ContractCalled 0])"
    using resolveLoop_return
      [OF resolveStep_nonzero [of "\<lparr>loopCount = 0, batchNum = 0, calls = 0, events = []\<rparr>"
            walkBackContract 0 7 "replicate 31 0 @ [1]" 0]]
    by (simp add: GetOldAccInputHash_def walkBack_answers closed_decodes)
  have bad: "GetOldAccInputHash (\<lambda>n addr data. Inl (RpcError n)) 0 7 0
       = Some ((ZeroHash, Some errorTooManyRetries),
           [ContractCalled 0, ResolverSlept 0, ContractCalled 0, ResolverSlept 2,
            ContractCalled 0, ResolverSlept 4, ContractCalled 0, ResolverSlept 6,
            ContractCalled 0, ResolverSlept 8, ContractCalled 0, ResolverSlept 10,
            ContractCalled 0, ResolverSlept 12, ContractCalled 0, ResolverSlept 14,
            ContractCalled 0, ResolverSlept 16, ContractCalled 0, ResolverSlept 18])"
    by (simp add: GetOldAccInputHash_def resolveLoop.simps resolveStep_def
          callGetRollupSequencedBatches_def Let_def)
  from GetOldAccInputHash_success_nonzero
         [of walkBackContract 0 7 0 "replicate 31 0 @ [1]" None "[ContractCalled 0]"]
       GetOldAccInputHash_success_nonzero
         [of "\<lambda>n addr data. Inl (RpcError n)" 0 7 0 ZeroHash "Some errorTooManyRetries"]
  show ?thesis using ok bad by simp
qed

section \<open>The fetch worker: results\<close>

lemma fetchRetry_fail_last:
  "filterLogs n j = Inl err \<Longrightarrow> retry \<ge> 5 \<Longrightarrow>
   fetchRetry filterLogs j retry n tr = (Inl err, n + 1, tr @ [FilterLogsCalled j])"
  by (subst fetchRetry.simps) (simp add: Let_def)

lemma fetchRetry_fail_again:
  "filterLogs n j = Inl err \<Longrightarrow> retry < 5 \<Longrightarrow>
   fetchRetry filterLogs j retry n tr =
     fetchRetry filterLogs j (retry + 1) (n + 1) (tr @ [FilterLogsCalled j, WorkerSlept ((retry + 1) * 2)])"
  by (subst fetchRetry.simps) (simp add: Let_def)

lemma fetchRetry_all_fail:
  assumes "\<forall>k. \<exists>err. filterLogs k j = Inl err"
  shows "fetchRetry filterLogs j 0 n tr =
     (filterLogs (n + 5) j, n + 6,
      tr @ [FilterLogsCalled j, WorkerSlept 2, FilterLogsCalled j, WorkerSlept 4,
            FilterLogsCalled j, WorkerSlept 6, FilterLogsCalled j, WorkerSlept 8,
            FilterLogsCalled j, WorkerSlept 10, FilterLogsCalled j])"
proof -
  obtain e where e: "\<And>k. filterLogs k j = Inl (e k)"
    using assms by metis
  note again = fetchRetry_fail_again [of filterLogs _ j, OF e]
  note last = fetchRetry_fail_last [of filterLogs _ j, OF e]
  have "fetchRetry filterLogs j 0 n tr =
          fetchRetry filterLogs j 5 (n + 5)
            (tr @ [FilterLogsCalled j, WorkerSlept 2, FilterLogsCalled j, WorkerSlept 4,
                   FilterLogsCalled j, WorkerSlept 6, FilterLogsCalled j, WorkerSlept 8,
                   FilterLogsCalled j, WorkerSlept 10])"
    by (simp add: again eval_nat_numeral)
  also have "\<dots> = (Inl (e (n + 5)), n + 5 + 1,
      (tr @ [FilterLogsCalled j, WorkerSlept 2, FilterLogsCalled j, WorkerSlept 4,
             FilterLogsCalled j, WorkerSlept 6, FilterLogsCalled j, WorkerSlept 8,
             FilterLogsCalled j, WorkerSlept 10]) @ [FilterLogsCalled j])"
    by (rule last) simp
  finally show ?thesis by (simp add: e)
qed

text \<open>
  C4. When every log query for a job fails, the worker that received the job sends the
  query exactly 6 times, sleeps 2, 4, 6, 8 and 10 seconds between consecutive queries,
  then sends exactly one result, which carries the error of the last query, size 0 and
  no logs, and does nothing more: whatever is still in the job queue, it returns, so the
  job is neither queued again nor tried again.
\<close>

theorem getSequencedLogs_retries_exhausted:
  assumes "\<forall>k. \<exists>err. filterLogs k j = Inl err"
  shows "\<exists>lastErr. filterLogs (n + 5) j = Inl lastErr
           \<and> getSequencedLogs filterLogs (JobReceived j # sels) n tr =
               tr @ [FilterLogsCalled j, WorkerSlept 2, FilterLogsCalled j, WorkerSlept 4,
                     FilterLogsCalled j, WorkerSlept 6, FilterLogsCalled j, WorkerSlept 8,
                     FilterLogsCalled j, WorkerSlept 10, FilterLogsCalled j,
                     ResultSent \<lparr>Size = 0, Error = Some (EndpointError lastErr), Logs = []\<rparr>]"
proof -
  obtain lastErr where l: "filterLogs (n + 5) j = Inl lastErr"
    using assms by blast
  show ?thesis
    using l by (simp add: fetchRetry_all_fail [of filterLogs j, OF assms])
qed

theorem getSequencedLogs_retries_exhausted_witness:
  "failingFilterLogs 5 \<lparr>From = 0, To = 1000\<rparr> = Inl (RpcError 5)
   \<and> getSequencedLogs failingFilterLogs
        [JobReceived \<lparr>From = 0, To = 1000\<rparr>, JobReceived \<lparr>From = 1001, To = 2001\<rparr>, JobsClosed] 0 [] =
          [FilterLogsCalled \<lparr>From = 0, To = 1000\<rparr>, WorkerSlept 2,
           FilterLogsCalled \<lparr>From = 0, To = 1000\<rparr>, WorkerSlept 4,
           FilterLogsCalled \<lparr>From = 0, To = 1000\<rparr>, WorkerSlept 6,
           FilterLogsCalled \<lparr>From = 0, To = 1000\<rparr>, WorkerSlept 8,
           FilterLogsCalled \<lparr>From = 0, To = 1000\<rparr>, WorkerSlept 10,
           FilterLogsCalled \<lparr>From = 0, To = 1000\<rparr>,
           ResultSent \<lparr>Size = 0, Error = Some (EndpointError (RpcError 5)), Logs = []\<rparr>]"
proof -
  have h: "\<forall>k. \<exists>err. failingFilterLogs k \<lparr>From = 0, To = 1000\<rparr> = Inl err"
    by (simp add: failingFilterLogs_def)
  from getSequencedLogs_retries_exhausted
    [of failingFilterLogs "\<lparr>From = 0, To = 1000\<rparr>" 0
       "[JobReceived \<lparr>From = 1001, To = 2001\<rparr>, JobsClosed]" "[]", OF h]
  show ?thesis by (simp add: failingFilterLogs_def)
qed


end
